theory Spec2Isabelle
  imports Main "HOL-Library.Word" "HOL-Library.Sublist"
begin

section \<open>The HTTP-bridge WebSocket of \<^verbatim>\<open>cmd/webclient/polyfill.js\<close>\<close>

text \<open>
  The polyfill replaces \<^verbatim>\<open>window.WebSocket\<close> for same-origin targets by a socket object
  that talks to three HTTP endpoints (connect, send, poll).  This theory embeds the
  socket built by \<^verbatim>\<open>createHttpBridgeWebSocket\<close>: its frame codec, its variables, and
  its asynchronous activities, and proves properties of them.
\<close>

subsection \<open>Bytes, strings and the platform's radix-64 primitives\<close>

text \<open>
  A \<^verbatim>\<open>Uint8Array\<close> is a list of 8-bit words.  A JavaScript string is a list of
  16-bit code units.  Wire text (radix-64 data, close reasons, error messages) is a
  \<^typ>\<open>string\<close>.
\<close>

type_synonym byte = "8 word"
type_synonym code_unit = "16 word"
type_synonym jsstring = "code_unit list"

text \<open>
  \<^verbatim>\<open>btoa\<close> and \<^verbatim>\<open>atob\<close> belong to the platform, not to the repository.  They are
  written here after their definition in the HTML standard (forgiving-base64 encode and
  decode): \<^verbatim>\<open>btoa\<close> throws on a code unit above \<^verbatim>\<open>0xFF\<close>; \<^verbatim>\<open>atob\<close> removes ASCII
  whitespace, removes one or two trailing \<^verbatim>\<open>=\<close> when the length is a multiple of four,
  throws when the remaining length is 1 modulo 4 or a character is outside the alphabet,
  and otherwise reads six bits per character, dropping the 4 or 2 left-over bits of a
  final group of two or three characters.
\<close>

definition b64_alphabet :: string where
  "b64_alphabet = ''ABCDEFGHIJKLMNOPQRSTUVWXYZabcdefghijklmnopqrstuvwxyz0123456789+/''"

definition b64_char :: "nat \<Rightarrow> char" where
  "b64_char n = b64_alphabet ! n"

fun index_of :: "'a list \<Rightarrow> 'a \<Rightarrow> nat option" where
  "index_of [] c = None"
| "index_of (x # xs) c = (if x = c then Some 0 else map_option Suc (index_of xs c))"

definition b64_index :: "char \<Rightarrow> nat option" where
  "b64_index c = index_of b64_alphabet c"

fun b64_sextets :: "nat list \<Rightarrow> nat list" where
  "b64_sextets (a # b # c # rest) =
     (a div 4) # ((a mod 4) * 16 + b div 16) # ((b mod 16) * 4 + c div 64) # (c mod 64)
       # b64_sextets rest"
| "b64_sextets [a, b] = [a div 4, (a mod 4) * 16 + b div 16, (b mod 16) * 4]"
| "b64_sextets [a] = [a div 4, (a mod 4) * 16]"
| "b64_sextets [] = []"

definition b64_padding :: "nat \<Rightarrow> string" where
  "b64_padding n = replicate ((3 - n mod 3) mod 3) (CHR ''='')"

definition b64_encode :: "nat list \<Rightarrow> string" where
  "b64_encode octets = map b64_char (b64_sextets octets) @ b64_padding (length octets)"

definition btoa :: "jsstring \<Rightarrow> string option" where
  "btoa s = (if list_all (\<lambda>c. c \<le> 0xFF) s then Some (b64_encode (map unat s)) else None)"

fun b64_octets :: "nat list \<Rightarrow> nat list" where
  "b64_octets (p # q # r # s # rest) =
     (p * 4 + q div 16) # ((q mod 16) * 16 + r div 4) # ((r mod 4) * 64 + s)
       # b64_octets rest"
| "b64_octets [p, q, r] = [p * 4 + q div 16, (q mod 16) * 16 + r div 4]"
| "b64_octets [p, q] = [p * 4 + q div 16]"
| "b64_octets [p] = []"
| "b64_octets [] = []"

definition ascii_whitespace :: "char \<Rightarrow> bool" where
  "ascii_whitespace c \<longleftrightarrow> (of_char c :: nat) \<in> set [0x09, 0x0A, 0x0C, 0x0D, 0x20]"

definition remove_padding :: "string \<Rightarrow> string" where
  "remove_padding d =
     (if d \<noteq> [] \<and> last d = CHR ''='' then
        (if butlast d \<noteq> [] \<and> last (butlast d) = CHR ''='' then butlast (butlast d)
         else butlast d)
      else d)"

definition atob :: "string \<Rightarrow> jsstring option" where
  "atob data =
     (let d1 = filter (\<lambda>c. \<not> ascii_whitespace c) data;
          d2 = (if length d1 mod 4 = 0 then remove_padding d1 else d1)
      in if length d2 mod 4 = 1 then None
         else (case those (map b64_index d2) of
                 None \<Rightarrow> None
               | Some sextets \<Rightarrow> Some (map of_nat (b64_octets sextets))))"

subsection \<open>Frame codec\<close>

text \<open>
  \<^verbatim>\<open>encodeBinary\<close> builds the binary string chunk by chunk
  (\<^verbatim>\<open>String.fromCharCode.apply(null, bytes.subarray(i, i + chunkSize))\<close>) and hands the
  whole string to \<^verbatim>\<open>btoa\<close>.
\<close>

definition chunkSize :: nat where
  "chunkSize = 0x8000"

definition subarray :: "byte list \<Rightarrow> nat \<Rightarrow> nat \<Rightarrow> byte list" where
  "subarray bytes b e = take (e - b) (drop b bytes)"

definition fromCharCode :: "byte list \<Rightarrow> jsstring" where
  "fromCharCode chunk = map ucast chunk"

function encodeBinary_loop :: "byte list \<Rightarrow> nat \<Rightarrow> jsstring \<Rightarrow> jsstring" where
  "encodeBinary_loop bytes i binary =
     (if i < length bytes
      then encodeBinary_loop bytes (i + chunkSize)
             (binary @ fromCharCode (subarray bytes i (i + chunkSize)))
      else binary)"
  by pat_completeness auto
termination
  by (relation "measure (\<lambda>(bytes, i, binary). length bytes - i)") (auto simp: chunkSize_def)

declare encodeBinary_loop.simps [simp del]

definition encodeBinary :: "byte list \<Rightarrow> string option" where
  "encodeBinary bytes = btoa (encodeBinary_loop bytes 0 [])"

text \<open>
  The first half of \<^verbatim>\<open>decodeMessage\<close>: \<^verbatim>\<open>atob\<close>, then one byte per character of the
  binary string (\<^verbatim>\<open>bytes[i] = binary.charCodeAt(i)\<close>, a store into a \<^verbatim>\<open>Uint8Array\<close>).
  \<^verbatim>\<open>None\<close> is the exception of \<^verbatim>\<open>atob\<close>.
\<close>

definition decodeMessage_bytes :: "string \<Rightarrow> byte list option" where
  "decodeMessage_bytes data = map_option (map ucast) (atob data)"


subsection \<open>Values exchanged with the application and with the transport\<close>

datatype ready_state = CONNECTING | OPEN | CLOSING | CLOSED

datatype binary_type = BlobType | ArrayBufferType

text \<open>
  What the application may hand to \<^verbatim>\<open>send\<close>: a string, a \<^verbatim>\<open>Blob\<close>, an
  \<^verbatim>\<open>ArrayBuffer\<close>, a view (its buffer, \<^verbatim>\<open>byteOffset\<close> and \<^verbatim>\<open>byteLength\<close>), or a
  value of any other type.  Payloads are values: the application does not change a
  buffer between \<^verbatim>\<open>send\<close> and its submission.
\<close>

datatype payload =
    StringData jsstring
  | BlobData "byte list"
  | ArrayBufferData "byte list"
  | ViewData "byte list" nat nat
  | OtherData

datatype frame = TextFrame jsstring | BinaryFrame string | CloseFrame int string

text \<open>The three endpoints; the connection identifier is part of the address.\<close>

datatype request =
    ConnectRequest
  | SendRequest "string option" frame
  | PollRequest "string option"

text \<open>
  One element of the \<^verbatim>\<open>messages\<close> array of a poll response.  A field that is absent
  is \<^verbatim>\<open>None\<close>.
\<close>

record message =
  msg_type :: "string option"
  msg_messageType :: "string option"
  msg_data :: "string option"
  msg_code :: "int option"
  msg_reason :: "string option"

datatype message_data =
    TextMessage jsstring
  | ArrayBufferMessage "byte list"
  | BlobMessage "byte list"

text \<open>
  The events handed to \<^verbatim>\<open>emit\<close>.  An error event carries the error, represented by
  its message; a message event carries the data and the origin; a close event carries
  code, reason and \<^verbatim>\<open>wasClean\<close>.
\<close>

datatype event =
    OpenEvent
  | MessageEvent message_data string
  | ErrorEvent string
  | CloseEvent int string bool

datatype exception = Error string

text \<open>
  The platform around one socket: \<^verbatim>\<open>textDecoder.decode\<close> and the origin computed
  from the socket's url are parameters.
\<close>

record platform =
  textDecoder_decode :: "byte list \<Rightarrow> jsstring"
  url_origin :: string

text \<open>
  \<^verbatim>\<open>textEncoder.encode(data).length\<close>: the number of UTF-8 bytes of a string of UTF-16
  code units, a surrogate pair giving four bytes and an unpaired surrogate the three
  bytes of U+FFFD.
\<close>

fun utf8_length :: "jsstring \<Rightarrow> nat" where
  "utf8_length [] = 0"
| "utf8_length (u # us) =
     (if u < 0x80 then 1 + utf8_length us
      else if u < 0x800 then 2 + utf8_length us
      else if 0xD800 \<le> u \<and> u \<le> 0xDBFF then
        (case us of
           [] \<Rightarrow> 3
         | v # vs \<Rightarrow>
             if 0xDC00 \<le> v \<and> v \<le> 0xDFFF then 4 + utf8_length vs
             else 3 + utf8_length us)
      else 3 + utf8_length us)"

fun calculateSize :: "payload \<Rightarrow> int" where
  "calculateSize (StringData text) = int (utf8_length text)"
| "calculateSize (ArrayBufferData bytes) = int (length bytes)"
| "calculateSize (ViewData buffer byteOffset byteLength) = int byteLength"
| "calculateSize (BlobData bytes) = int (length bytes)"
| "calculateSize OtherData = 0"

subsection \<open>The socket\<close>

text \<open>
  The variables of \<^verbatim>\<open>createHttpBridgeWebSocket\<close>, the asynchronous activities that are
  suspended at an \<^verbatim>\<open>await\<close>, and what the socket has done so far.

  A drain activity suspended in \<^verbatim>\<open>flushQueue\<close> holds its \<^verbatim>\<open>rawData\<close> and \<^verbatim>\<open>size\<close>
  and waits either for \<^verbatim>\<open>rawData.arrayBuffer()\<close> or for the response of the send
  endpoint.  A close activity waits for the response to its close frame and holds
  \<^verbatim>\<open>code\<close> and \<^verbatim>\<open>reason\<close>.  The activities are kept in lists, so that the model
  does not presuppose that there is at most one of them.
\<close>

datatype drain_task = AwaitingBlob payload int | AwaitingAck payload int

record socket =
  readyState :: ready_state
  binaryType :: binary_type
  protocol :: string
  connId :: "string option"
  isClosed :: bool
  isSending :: bool
  bufferedAmount :: int
  sendQueue :: "(payload \<times> int) list"
  connecting :: bool
  drains :: "drain_task list"
  polling :: nat
  closers :: "(int \<times> string) list"
  fetched :: "request list"
  emitted :: "event list"
  accepted :: "payload list"

text \<open>
  \<^verbatim>\<open>connecting\<close>: the connect request of the constructor is unanswered.
  \<^verbatim>\<open>polling\<close>: the number of unanswered poll requests.
  \<^verbatim>\<open>fetched\<close>: every request made, in order.  \<^verbatim>\<open>emitted\<close>: every event handed to
  \<^verbatim>\<open>emit\<close>, in order.  \<^verbatim>\<open>accepted\<close>: the payloads of the \<^verbatim>\<open>send\<close> calls that
  returned without an exception, in call order.

  \<^verbatim>\<open>emit\<close> calls the registered listeners and the handler slot and catches what they
  throw.  Listeners are observers here: they do not call the socket from inside a
  dispatch, so \<^verbatim>\<open>emit\<close> is the record of the event.
\<close>

definition createHttpBridgeWebSocket :: socket where
  "createHttpBridgeWebSocket =
     \<lparr>readyState = CONNECTING, binaryType = BlobType, protocol = [], connId = None,
      isClosed = False, isSending = False, bufferedAmount = 0, sendQueue = [],
      connecting = True, drains = [], polling = 0, closers = [],
      fetched = [ConnectRequest], emitted = [], accepted = []\<rparr>"

definition emit :: "event \<Rightarrow> socket \<Rightarrow> socket" where
  "emit e s = s\<lparr>emitted := emitted s @ [e]\<rparr>"

definition changeState :: "ready_state \<Rightarrow> socket \<Rightarrow> socket" where
  "changeState state s = s\<lparr>readyState := state\<rparr>"

definition fetch :: "request \<Rightarrow> socket \<Rightarrow> socket" where
  "fetch r s = s\<lparr>fetched := fetched s @ [r]\<rparr>"

definition handleClose :: "int \<Rightarrow> string \<Rightarrow> bool \<Rightarrow> socket \<Rightarrow> socket" where
  "handleClose code reason wasClean s =
     (if isClosed s then s
      else emit (CloseEvent code reason wasClean) (changeState CLOSED (s\<lparr>isClosed := True\<rparr>)))"

definition handleError :: "string \<Rightarrow> socket \<Rightarrow> socket" where
  "handleError err s =
     (if isClosed s then s
      else handleClose 1006 (if err \<noteq> [] then err else ''Unexpected error'') False
             (emit (ErrorEvent err) s))"

definition handleOpen :: "string option \<Rightarrow> socket \<Rightarrow> socket" where
  "handleOpen negotiatedProtocol s =
     emit OpenEvent
       (changeState OPEN
          (s\<lparr>protocol := (case negotiatedProtocol of None \<Rightarrow> [] | Some p \<Rightarrow> p)\<rparr>))"

subsection \<open>The outbound queue\<close>

definition truthy :: "string option \<Rightarrow> bool" where
  "truthy v = (case v of None \<Rightarrow> False | Some x \<Rightarrow> x \<noteq> [])"

definition submit :: "frame \<Rightarrow> socket \<Rightarrow> socket" where
  "submit f s = fetch (SendRequest (connId s) f) s"

text \<open>
  The body of the \<^verbatim>\<open>while\<close> loop of \<^verbatim>\<open>flushQueue\<close> always ends a turn: it suspends at
  an \<^verbatim>\<open>await\<close> or leaves the loop.  \<^verbatim>\<open>flushQueue_loop\<close> runs from the loop test to
  that point.  \<^verbatim>\<open>drain_break\<close> is the \<^verbatim>\<open>catch\<close> branch followed by the statement after
  the loop; \<^verbatim>\<open>drain_binary\<close> encodes and submits a binary frame, the exception of
  \<^verbatim>\<open>btoa\<close> going to the \<^verbatim>\<open>catch\<close> branch; \<^verbatim>\<open>drain_acked\<close> is the code after a
  response with \<^verbatim>\<open>response.ok\<close>.
\<close>

definition drain_break :: "string \<Rightarrow> socket \<Rightarrow> socket" where
  "drain_break err s = (handleError err s)\<lparr>isSending := False\<rparr>"

definition drain_send :: "payload \<Rightarrow> int \<Rightarrow> frame \<Rightarrow> socket \<Rightarrow> socket" where
  "drain_send rawData sz f s =
     (submit f s)\<lparr>drains := drains s @ [AwaitingAck rawData sz]\<rparr>"

definition drain_binary :: "payload \<Rightarrow> int \<Rightarrow> byte list \<Rightarrow> socket \<Rightarrow> socket" where
  "drain_binary rawData sz bytes s =
     (case encodeBinary bytes of
        None \<Rightarrow> drain_break ''InvalidCharacterError'' s
      | Some data \<Rightarrow> drain_send rawData sz (BinaryFrame data) s)"

definition flushQueue_loop :: "socket \<Rightarrow> socket" where
  "flushQueue_loop s =
     (if sendQueue s \<noteq> [] \<and> \<not> isClosed s then
        (case hd (sendQueue s) of (rawData, sz) \<Rightarrow>
           (case rawData of
              StringData text \<Rightarrow> drain_send rawData sz (TextFrame text) s
            | BlobData bytes \<Rightarrow> s\<lparr>drains := drains s @ [AwaitingBlob rawData sz]\<rparr>
            | ArrayBufferData bytes \<Rightarrow> drain_binary rawData sz bytes s
            | ViewData buffer byteOffset byteLength \<Rightarrow>
                drain_binary rawData sz (take byteLength (drop byteOffset buffer)) s
            | OtherData \<Rightarrow> drain_break ''Unsupported data type'' s))
      else s\<lparr>isSending := False\<rparr>)"

definition drain_acked :: "int \<Rightarrow> socket \<Rightarrow> socket" where
  "drain_acked sz s =
     flushQueue_loop
       (s\<lparr>sendQueue := tl (sendQueue s),
          bufferedAmount := (if bufferedAmount s - sz < 0 then 0 else bufferedAmount s - sz)\<rparr>)"

definition flushQueue :: "socket \<Rightarrow> socket" where
  "flushQueue s =
     (if isSending s \<or> sendQueue s = [] \<or> isClosed s then s
      else flushQueue_loop (s\<lparr>isSending := True\<rparr>))"

definition queueSend :: "payload \<Rightarrow> socket \<Rightarrow> exception + socket" where
  "queueSend rawData s =
     (if readyState s \<noteq> OPEN then Inl (Error ''WebSocket is not open'')
      else Inr (flushQueue
                  (s\<lparr>sendQueue := sendQueue s @ [(rawData, calculateSize rawData)],
                     bufferedAmount := bufferedAmount s + calculateSize rawData\<rparr>)))"

definition socket_send :: "payload \<Rightarrow> socket \<Rightarrow> exception + socket" where
  "socket_send data s = queueSend data s"

subsection \<open>Inbound messages and polling\<close>

definition decodeMessage :: "platform \<Rightarrow> socket \<Rightarrow> message \<Rightarrow> message_data option" where
  "decodeMessage pf s m =
     (case decodeMessage_bytes (case msg_data m of None \<Rightarrow> ''undefined'' | Some d \<Rightarrow> d) of
        None \<Rightarrow> None
      | Some bytes \<Rightarrow>
          Some (if msg_messageType m = Some ''text'' then TextMessage (textDecoder_decode pf bytes)
                else if binaryType s = ArrayBufferType then ArrayBufferMessage bytes
                else BlobMessage bytes))"

definition handleMessage :: "platform \<Rightarrow> message \<Rightarrow> socket \<Rightarrow> socket" where
  "handleMessage pf m s =
     (if readyState s \<noteq> OPEN then s
      else if msg_type m = Some ''close'' then
        handleClose
          (case msg_code m of None \<Rightarrow> 1000 | Some c \<Rightarrow> if c = 0 then 1000 else c)
          (case msg_reason m of None \<Rightarrow> [] | Some r \<Rightarrow> r)
          (msg_code m = Some 1000) s
      else (case decodeMessage pf s m of
              None \<Rightarrow> s
            | Some data \<Rightarrow> emit (MessageEvent data (url_origin pf)) s))"

text \<open>
  \<^verbatim>\<open>startPolling_loop\<close> runs from the loop test of \<^verbatim>\<open>startPolling\<close> to the
  \<^verbatim>\<open>await\<close>; \<^verbatim>\<open>poll_resolved\<close> is the code after a poll response with
  \<^verbatim>\<open>response.ok\<close> and a body, \<^verbatim>\<open>poll_rejected\<close> the \<^verbatim>\<open>catch\<close> branch.
\<close>

definition startPolling_loop :: "socket \<Rightarrow> socket" where
  "startPolling_loop s =
     (if \<not> isClosed s then (fetch (PollRequest (connId s)) s)\<lparr>polling := polling s + 1\<rparr>
      else s)"

definition poll_resolved :: "platform \<Rightarrow> message list \<Rightarrow> socket \<Rightarrow> socket" where
  "poll_resolved pf messages s = startPolling_loop (fold (handleMessage pf) messages s)"

definition poll_rejected :: "string \<Rightarrow> socket \<Rightarrow> socket" where
  "poll_rejected err s = (if \<not> isClosed s then handleError err s else s)"

subsection \<open>Closing, and the binary-mode setter\<close>

definition socket_close :: "int option \<Rightarrow> string option \<Rightarrow> socket \<Rightarrow> socket" where
  "socket_close code_arg reason_arg s =
     (let code = (case code_arg of None \<Rightarrow> 1000 | Some c \<Rightarrow> c);
          reason = (case reason_arg of None \<Rightarrow> [] | Some r \<Rightarrow> r)
      in if isClosed s \<or> readyState s = CLOSING then s
         else if truthy (connId s) then
           (submit (CloseFrame code reason) (changeState CLOSING s))
             \<lparr>closers := closers s @ [(code, reason)]\<rparr>
         else handleClose code reason (code = 1000) (changeState CLOSING s))"

definition close_settled :: "int \<Rightarrow> string \<Rightarrow> socket \<Rightarrow> socket" where
  "close_settled code reason s = handleClose code reason (code = 1000) s"

definition set_binaryType :: "string \<Rightarrow> socket \<Rightarrow> socket" where
  "set_binaryType v s =
     s\<lparr>binaryType := (if v = ''arraybuffer'' then ArrayBufferType else BlobType)\<rparr>"

subsection \<open>Turns of the event loop\<close>

text \<open>
  The socket runs on one thread.  Between two suspension points the code runs without
  interruption, so an execution is a sequence of turns: a call of the application, or
  the settlement of a request that one of the activities awaits.  A settlement names the
  waiting activity by its position; a turn for which nothing waits is \<^verbatim>\<open>None\<close>.

  \<^verbatim>\<open>SendRejected\<close> stands for a rejected \<^verbatim>\<open>fetch\<close> and for a response without
  \<^verbatim>\<open>response.ok\<close> alike, with the message of the error; so do \<^verbatim>\<open>ConnectRejected\<close>
  and \<^verbatim>\<open>PollRejected\<close>, which also cover a body that is not JSON.  \<^verbatim>\<open>CloseSettled\<close>
  is either outcome of the close frame's request: \<^verbatim>\<open>socket.close\<close> treats them alike.
\<close>

datatype turn =
    CallSend payload
  | CallClose "int option" "string option"
  | SetBinaryType string
  | ConnectResolved "string option" "string option"
  | ConnectRejected string
  | BlobResolved nat
  | BlobRejected nat string
  | SendResolved nat
  | SendRejected nat string
  | PollResolved "message list"
  | PollRejected string
  | CloseSettled nat

definition remove_nth :: "nat \<Rightarrow> 'a list \<Rightarrow> 'a list" where
  "remove_nth k xs = take k xs @ drop (Suc k) xs"

fun step :: "platform \<Rightarrow> turn \<Rightarrow> socket \<Rightarrow> socket option" where
  "step pf (CallSend data) s =
     (case socket_send data s of
        Inl e \<Rightarrow> Some s
      | Inr s' \<Rightarrow> Some (s'\<lparr>accepted := accepted s' @ [data]\<rparr>))"
| "step pf (CallClose code reason) s = Some (socket_close code reason s)"
| "step pf (SetBinaryType v) s = Some (set_binaryType v s)"
| "step pf (ConnectResolved cid negotiated) s =
     (if connecting s
      then Some (startPolling_loop (handleOpen negotiated (s\<lparr>connecting := False, connId := cid\<rparr>)))
      else None)"
| "step pf (ConnectRejected err) s =
     (if connecting s then Some (handleError err (s\<lparr>connecting := False\<rparr>)) else None)"
| "step pf (BlobResolved k) s =
     (if k < length (drains s) then
        (case drains s ! k of
           AwaitingBlob rawData sz \<Rightarrow>
             (case rawData of
                BlobData bytes \<Rightarrow>
                  Some (drain_binary rawData sz bytes (s\<lparr>drains := remove_nth k (drains s)\<rparr>))
              | _ \<Rightarrow> None)
         | AwaitingAck rawData sz \<Rightarrow> None)
      else None)"
| "step pf (BlobRejected k err) s =
     (if k < length (drains s) then
        (case drains s ! k of
           AwaitingBlob rawData sz \<Rightarrow>
             Some (drain_break err (s\<lparr>drains := remove_nth k (drains s)\<rparr>))
         | AwaitingAck rawData sz \<Rightarrow> None)
      else None)"
| "step pf (SendResolved k) s =
     (if k < length (drains s) then
        (case drains s ! k of
           AwaitingAck rawData sz \<Rightarrow>
             Some (drain_acked sz (s\<lparr>drains := remove_nth k (drains s)\<rparr>))
         | AwaitingBlob rawData sz \<Rightarrow> None)
      else None)"
| "step pf (SendRejected k err) s =
     (if k < length (drains s) then
        (case drains s ! k of
           AwaitingAck rawData sz \<Rightarrow>
             Some (drain_break err (s\<lparr>drains := remove_nth k (drains s)\<rparr>))
         | AwaitingBlob rawData sz \<Rightarrow> None)
      else None)"
| "step pf (PollResolved messages) s =
     (if 0 < polling s then Some (poll_resolved pf messages (s\<lparr>polling := polling s - 1\<rparr>))
      else None)"
| "step pf (PollRejected err) s =
     (if 0 < polling s then Some (poll_rejected err (s\<lparr>polling := polling s - 1\<rparr>))
      else None)"
| "step pf (CloseSettled k) s =
     (if k < length (closers s) then
        (case closers s ! k of (code, reason) \<Rightarrow>
           Some (close_settled code reason (s\<lparr>closers := remove_nth k (closers s)\<rparr>)))
      else None)"

fun run :: "platform \<Rightarrow> turn list \<Rightarrow> socket \<Rightarrow> socket option" where
  "run pf [] s = Some s"
| "run pf (t # ts) s = (case step pf t s of None \<Rightarrow> None | Some s' \<Rightarrow> run pf ts s')"

subsection \<open>Observations on an execution\<close>

text \<open>
  The frame that \<^verbatim>\<open>flushQueue\<close> submits for a payload; the frames of the queue among
  the requests made; the number of acknowledged submissions in an execution; the close
  events among the events emitted; a platform for concrete executions.
\<close>

fun frame_of :: "payload \<Rightarrow> frame option" where
  "frame_of (StringData text) = Some (TextFrame text)"
| "frame_of (BlobData bytes) = map_option BinaryFrame (encodeBinary bytes)"
| "frame_of (ArrayBufferData bytes) = map_option BinaryFrame (encodeBinary bytes)"
| "frame_of (ViewData buffer byteOffset byteLength) =
     map_option BinaryFrame (encodeBinary (take byteLength (drop byteOffset buffer)))"
| "frame_of OtherData = None"

fun is_data_request :: "request \<Rightarrow> bool" where
  "is_data_request (SendRequest cid (TextFrame text)) = True"
| "is_data_request (SendRequest cid (BinaryFrame data)) = True"
| "is_data_request r = False"

fun frame_of_request :: "request \<Rightarrow> frame option" where
  "frame_of_request (SendRequest cid f) = Some f"
| "frame_of_request r = None"

definition data_frames :: "request list \<Rightarrow> frame option list" where
  "data_frames rs = map frame_of_request (filter is_data_request rs)"

fun is_ack :: "turn \<Rightarrow> bool" where
  "is_ack (SendResolved k) = True"
| "is_ack t = False"

definition acks :: "turn list \<Rightarrow> nat" where
  "acks ts = length (filter is_ack ts)"

fun is_close_event :: "event \<Rightarrow> bool" where
  "is_close_event (CloseEvent code reason wasClean) = True"
| "is_close_event e = False"

definition close_events :: "socket \<Rightarrow> event list" where
  "close_events s = filter is_close_event (emitted s)"

definition example_platform :: platform where
  "example_platform = \<lparr>textDecoder_decode = map ucast, url_origin = ''http://localhost''\<rparr>"

subsection \<open>Invariants and notions used in the statements\<close>

text \<open>
  What holds of the lifecycle variables in every execution.  While the open request is
  unanswered there is no poll and no connection identifier, and the socket is either
  still \<^verbatim>\<open>CONNECTING\<close> or was finalized by \<^verbatim>\<open>close()\<close>.  A socket whose closed flag is
  set is \<^verbatim>\<open>CLOSED\<close>, or \<^verbatim>\<open>OPEN\<close> without a poll (the open request succeeded after the
  finalization).  A socket whose closed flag is not set is not \<^verbatim>\<open>CLOSED\<close>, and it is
  \<^verbatim>\<open>CLOSING\<close> exactly when the request of a close frame is pending.  The number of
  close events emitted is 1 or 0 with the closed flag.
\<close>

definition lifecycle_inv :: "socket \<Rightarrow> bool" where
  "lifecycle_inv s \<longleftrightarrow>
     (connecting s \<longrightarrow> polling s = 0 \<and> connId s = None
        \<and> (readyState s = CONNECTING \<and> \<not> isClosed s \<or> readyState s = CLOSED \<and> isClosed s))
     \<and> (\<not> connecting s \<longrightarrow> readyState s \<noteq> CONNECTING)
     \<and> (isClosed s \<longrightarrow> readyState s = CLOSED \<or> readyState s = OPEN \<and> polling s = 0)
     \<and> (\<not> isClosed s \<longrightarrow> readyState s \<noteq> CLOSED \<and> (readyState s = CLOSING \<longleftrightarrow> closers s \<noteq> []))
     \<and> length (close_events s) = (if isClosed s then 1 else 0)"

text \<open>The socket after the open request succeeded with connection identifier \<^verbatim>\<open>c1\<close>.\<close>

definition open_socket :: socket where
  "open_socket =
     createHttpBridgeWebSocket\<lparr>readyState := OPEN, connecting := False, connId := Some ''c1'',
       polling := 1, fetched := [ConnectRequest, PollRequest (Some ''c1'')],
       emitted := [OpenEvent]\<rparr>"

text \<open>
  The transitions that the socket makes by design, and the turn that stands apart: the
  open request succeeding.
\<close>

definition allowed_transition :: "ready_state \<Rightarrow> ready_state \<Rightarrow> bool" where
  "allowed_transition a b \<longleftrightarrow>
     (a, b) \<in> set [(CONNECTING, OPEN), (OPEN, CLOSING), (CLOSING, CLOSED),
                   (CONNECTING, CLOSED), (OPEN, CLOSED)]"

fun is_connect_resolved :: "turn \<Rightarrow> bool" where
  "is_connect_resolved (ConnectResolved cid negotiated) = True"
| "is_connect_resolved t = False"

fun is_call_close :: "turn \<Rightarrow> bool" where
  "is_call_close (CallClose code reason) = True"
| "is_call_close t = False"

text \<open>
  What every part of the socket other than \<^verbatim>\<open>handleOpen\<close> and \<^verbatim>\<open>socket.close\<close> does to
  the state: it keeps it, or finalizes a socket that was not finalized.
\<close>

definition keeps_or_closes :: "socket \<Rightarrow> socket \<Rightarrow> bool" where
  "keeps_or_closes s s' \<longleftrightarrow>
     (isClosed s \<longrightarrow> isClosed s')
     \<and> (readyState s' = readyState s \<or> \<not> isClosed s \<and> readyState s' = CLOSED)"

text \<open>
  What holds of the outbound queue in every execution, \<^verbatim>\<open>k\<close> being the number of
  acknowledged submissions so far.  The queue holds the accepted payloads from the
  \<^verbatim>\<open>k\<close>-th on, each with its computed size, and \<^verbatim>\<open>bufferedAmount\<close> is the sum of these
  sizes.  \<^verbatim>\<open>isSending\<close> is set exactly while a drain activity is suspended.  There is at
  most one such activity; it holds the \<^verbatim>\<open>k\<close>-th accepted payload; the frames submitted
  from the queue are those of the first \<^verbatim>\<open>k\<close> accepted payloads, and of the \<^verbatim>\<open>k\<close>-th as
  well while its acknowledgment is awaited.  Without a drain activity and with the
  closed flag unset the queue is empty; after a failed submission the frame of the
  \<^verbatim>\<open>k\<close>-th payload has been submitted and the closed flag is set.
\<close>

definition queue_inv :: "nat \<Rightarrow> socket \<Rightarrow> bool" where
  "queue_inv k s \<longleftrightarrow>
     k \<le> length (accepted s)
     \<and> sendQueue s = map (\<lambda>p. (p, calculateSize p)) (drop k (accepted s))
     \<and> bufferedAmount s = sum_list (map calculateSize (drop k (accepted s)))
     \<and> (isSending s \<longleftrightarrow> drains s \<noteq> [])
     \<and> (case drains s of
           [] \<Rightarrow>
             (\<not> isClosed s \<longrightarrow> k = length (accepted s))
             \<and> (data_frames (fetched s) = map frame_of (take k (accepted s))
                \<or> isClosed s \<and> k < length (accepted s)
                  \<and> data_frames (fetched s) = map frame_of (take (Suc k) (accepted s)))
         | [AwaitingBlob p sz] \<Rightarrow>
             k < length (accepted s) \<and> p = accepted s ! k \<and> sz = calculateSize p
             \<and> data_frames (fetched s) = map frame_of (take k (accepted s))
         | [AwaitingAck p sz] \<Rightarrow>
             k < length (accepted s) \<and> p = accepted s ! k \<and> sz = calculateSize p
             \<and> data_frames (fetched s) = map frame_of (take (Suc k) (accepted s))
         | d # d' # ds \<Rightarrow> False)"

text \<open>
  A part of the socket that leaves the queue alone: it changes none of the queue's
  variables, submits no frame of the queue, and does not clear the closed flag.
\<close>

definition queue_same :: "socket \<Rightarrow> socket \<Rightarrow> bool" where
  "queue_same s s' \<longleftrightarrow>
     bufferedAmount s' = bufferedAmount s \<and> sendQueue s' = sendQueue s
     \<and> accepted s' = accepted s \<and> isSending s' = isSending s \<and> drains s' = drains s
     \<and> data_frames (fetched s') = data_frames (fetched s)
     \<and> (isClosed s \<longrightarrow> isClosed s')"




text \<open>
  An execution for the queue: the open request succeeds, the application sends the
  string \<^verbatim>\<open>hi\<close> and a buffer of three bytes, and the first submission is acknowledged.
\<close>

definition two_sends :: "turn list" where
  "two_sends =
     [ConnectResolved (Some ''c1'') None,
      CallSend (StringData [0x68, 0x69]),
      CallSend (ArrayBufferData [1, 2, 3]),
      SendResolved 0]"



section \<open>The frame codec is lossless on binary payloads\<close>

subsection \<open>Bytes and code units\<close>

lemma unat_byte_less: "unat (b :: byte) < 256"
  using unsigned_less[of b, where 'a=nat] by simp

lemma unat_ucast_byte: "unat (ucast (b :: byte) :: code_unit) = unat b"
  using unat_byte_less[of b] by (simp add: unsigned_ucast_eq take_bit_eq_mod)

lemma ucast_byte_le: "(ucast (b :: byte) :: code_unit) \<le> 0xFF"
  using unat_byte_less[of b] by (simp add: word_le_nat_alt unat_ucast_byte)

lemma ucast_ucast_byte: "(ucast (ucast (b::byte) :: code_unit) :: byte) = b"
  by (rule bit_word_eqI) (auto simp add: bit_ucast_iff dest: bit_imp_le_length)

lemma encodeBinary_loop_eq:
  "encodeBinary_loop bytes i binary = binary @ map ucast (drop i bytes)"
proof (induction bytes i binary rule: encodeBinary_loop.induct)
  case (1 bytes i binary)
  show ?case
  proof (cases "i < length bytes")
    case True
    have "take chunkSize (drop i bytes) @ drop (i + chunkSize) bytes = drop i bytes"
      by (metis add.commute append_take_drop_id drop_drop)
    then have "map ucast (take chunkSize (drop i bytes)) @ map ucast (drop (i + chunkSize) bytes)
        = (map ucast (drop i bytes) :: jsstring)"
      by (metis map_append)
    with True 1 show ?thesis
      by (subst encodeBinary_loop.simps) (simp add: fromCharCode_def subarray_def)
  next
    case False
    then show ?thesis
      by (subst encodeBinary_loop.simps) simp
  qed
qed

lemma distinct_alphabet: "distinct b64_alphabet"
  by (simp add: b64_alphabet_def)

lemma length_alphabet: "length b64_alphabet = 64"
  by (simp add: b64_alphabet_def)

lemma index_of_nth: "distinct xs \<Longrightarrow> n < length xs \<Longrightarrow> index_of xs (xs ! n) = Some n"
proof (induction xs arbitrary: n)
  case Nil
  then show ?case by simp
next
  case (Cons x xs)
  then show ?case by (cases n) auto
qed

lemma b64_index_char: "n < 64 \<Longrightarrow> b64_index (b64_char n) = Some n"
  by (simp add: b64_index_def b64_char_def index_of_nth distinct_alphabet length_alphabet)

lemma b64_char_in_alphabet: "n < 64 \<Longrightarrow> b64_char n \<in> set b64_alphabet"
  by (simp add: b64_char_def length_alphabet)

lemma alphabet_not_pad: "c \<in> set b64_alphabet \<Longrightarrow> c \<noteq> CHR ''=''"
  by (auto simp: b64_alphabet_def)

lemma alphabet_not_space: "c \<in> set b64_alphabet \<Longrightarrow> \<not> ascii_whitespace c"
  by (auto simp: b64_alphabet_def ascii_whitespace_def)

lemma pad_not_space: "\<not> ascii_whitespace (CHR ''='')"
  by (simp add: ascii_whitespace_def)

lemma hi_part: "y < k \<Longrightarrow> (x * k + y) div k = (x::nat)"
  by simp

lemma lo_part: "y < k \<Longrightarrow> (x * k + y) mod k = (y::nat)"
  by simp

lemma div_bound: "(b::nat) < m * k \<Longrightarrow> b div k < m"
  by (simp add: less_mult_imp_div_less mult.commute)

lemma sextet1_bound: "(a::nat) < 256 \<Longrightarrow> a div 4 < 64"
  using div_bound[of a 64 4] by simp

lemma sextet2_bound: "(b::nat) < 256 \<Longrightarrow> (a mod 4) * 16 + b div 16 < 64"
proof -
  assume "b < 256"
  then have "b div 16 < 16" using div_bound[of b 16 16] by simp
  moreover have "a mod 4 < 4" by simp
  ultimately show ?thesis by linarith
qed

lemma sextet3_bound: "(c::nat) < 256 \<Longrightarrow> (b mod 16) * 4 + c div 64 < 64"
proof -
  assume "c < 256"
  then have "c div 64 < 4" using div_bound[of c 4 64] by simp
  moreover have "b mod 16 < 16" by simp
  ultimately show ?thesis by linarith
qed

lemma sextet3_bound_last: "(b mod 16) * 4 < (64::nat)"
proof -
  have "b mod 16 < 16" by simp
  then show ?thesis by linarith
qed

lemma sextet2_bound_last: "(a mod 4) * 16 < (64::nat)"
proof -
  have "a mod 4 < 4" by simp
  then show ?thesis by linarith
qed

lemma octet1: "(b::nat) < 256 \<Longrightarrow> a div 4 * 4 + ((a mod 4) * 16 + b div 16) div 16 = a"
proof -
  assume "b < 256"
  then have "b div 16 < 16" using div_bound[of b 16 16] by simp
  then have "((a mod 4) * 16 + b div 16) div 16 = a mod 4" by (rule hi_part)
  then show ?thesis by simp
qed

lemma octet2: "(b::nat) < 256 \<Longrightarrow> c < 256 \<Longrightarrow>
   ((a mod 4) * 16 + b div 16) mod 16 * 16 + ((b mod 16) * 4 + c div 64) div 4 = b"
proof -
  assume "b < 256" "c < 256"
  then have "b div 16 < 16" "c div 64 < 4"
    using div_bound[of b 16 16] div_bound[of c 4 64] by simp_all
  then have "((a mod 4) * 16 + b div 16) mod 16 = b div 16"
    "((b mod 16) * 4 + c div 64) div 4 = b mod 16"
    by (simp_all only: hi_part lo_part)
  then show ?thesis by simp
qed

lemma octet3: "(c::nat) < 256 \<Longrightarrow> ((b mod 16) * 4 + c div 64) mod 4 * 64 + c mod 64 = c"
proof -
  assume "c < 256"
  then have "c div 64 < 4" using div_bound[of c 4 64] by simp
  then have "((b mod 16) * 4 + c div 64) mod 4 = c div 64" by (rule lo_part)
  then show ?thesis by simp
qed

lemma octet2_last: "(b::nat) < 256 \<Longrightarrow>
   ((a mod 4) * 16 + b div 16) mod 16 * 16 + ((b mod 16) * 4) div 4 = b"
proof -
  assume "b < 256"
  then have "b div 16 < 16" using div_bound[of b 16 16] by simp
  then have "((a mod 4) * 16 + b div 16) mod 16 = b div 16" by (rule lo_part)
  then show ?thesis by simp
qed

lemma octet1_last: "a div 4 * 4 + ((a mod 4) * 16) div 16 = (a::nat)"
  by simp

lemma sextets_bound:
  "list_all (\<lambda>n. n < 256) ns \<Longrightarrow> list_all (\<lambda>n. n < 64) (b64_sextets ns)"
proof (induction ns rule: b64_sextets.induct)
  case (1 a b c rest)
  then show ?case
    by (simp add: sextet1_bound sextet2_bound sextet3_bound)
next
  case (2 a b)
  then show ?case
    by (simp add: sextet1_bound sextet2_bound sextet3_bound_last)
next
  case (3 a)
  then show ?case
    by (simp add: sextet1_bound sextet2_bound_last)
qed simp

lemma octets_sextets:
  "list_all (\<lambda>n. n < 256) ns \<Longrightarrow> b64_octets (b64_sextets ns) = ns"
proof (induction ns rule: b64_sextets.induct)
  case (1 a b c rest)
  then have small: "b < 256" "c < 256" and IH: "b64_octets (b64_sextets rest) = rest"
    by simp_all
  show ?case
    by (simp only: b64_sextets.simps b64_octets.simps IH
        octet1[OF small(1)] octet2[OF small] octet3[OF small(2)])
next
  case (2 a b)
  then have small: "b < 256" by simp
  show ?case
    by (simp only: b64_sextets.simps b64_octets.simps octet1[OF small] octet2_last[OF small])
next
  case (3 a)
  show ?case
    by (simp only: b64_sextets.simps b64_octets.simps octet1_last)
qed simp

lemma b64_padding_step: "b64_padding (Suc (Suc (Suc n))) = b64_padding n"
proof -
  have "Suc (Suc (Suc n)) mod 3 = n mod 3"
    by presburger
  then show ?thesis by (simp only: b64_padding_def)
qed

lemma length_encoded:
  "length (b64_sextets ns) mod 4 \<noteq> 1
   \<and> (length (b64_sextets ns) + length (b64_padding (length ns))) mod 4 = 0"
proof (induction ns rule: b64_sextets.induct)
  case (1 a b c rest)
  then show ?case by (simp add: b64_padding_step)
next
  case (2 a b)
  show ?case by (simp add: b64_padding_def)
next
  case (3 a)
  show ?case by (simp add: b64_padding_def)
next
  case 4
  show ?case by (simp add: b64_padding_def)
qed

lemma length_sextets_mod: "length (b64_sextets ns) mod 4 \<noteq> 1"
  using length_encoded[of ns] by blast

lemma length_b64_encode: "length (b64_encode ns) mod 4 = 0"
  using length_encoded[of ns] by (simp add: b64_encode_def)

lemma b64_padding_short: "\<exists>k\<le>2. b64_padding n = replicate k (CHR ''='')"
proof -
  have "(3 - n mod 3) mod 3 \<le> 2"
    using mod_less_divisor[of 3 "3 - n mod 3"] by linarith
  then show ?thesis unfolding b64_padding_def by blast
qed

lemma replicate_two: "replicate 2 c = [c, c]"
  by (simp add: numeral_2_eq_2)

lemma remove_padding_append:
  assumes "\<forall>c \<in> set xs. c \<noteq> CHR ''=''" and "k \<le> 2"
  shows "remove_padding (xs @ replicate k (CHR ''='')) = xs"
proof -
  have nolast: "xs \<noteq> [] \<Longrightarrow> last xs \<noteq> CHR ''=''"
    using assms(1) last_in_set by blast
  consider "k = 0" | "k = 1" | "k = 2" using assms(2) by arith
  then show ?thesis
  proof cases
    case 1
    then show ?thesis using nolast by (auto simp: remove_padding_def)
  next
    case 2
    then show ?thesis using nolast by (auto simp: remove_padding_def)
  next
    case 3
    then have "replicate k (CHR ''='') = [CHR ''='', CHR ''='']"
      by (simp add: numeral_2_eq_2)
    then show ?thesis
      by (simp add: remove_padding_def butlast_append)
  qed
qed

lemma those_index_chars:
  "list_all (\<lambda>n. n < 64) sx \<Longrightarrow> those (map b64_index (map b64_char sx)) = Some sx"
  by (induction sx) (simp_all add: b64_index_char)

lemma atob_b64_encode:
  assumes "list_all (\<lambda>n. n < 256) ns"
  shows "atob (b64_encode ns) = Some (map of_nat ns)"
proof -
  let ?body = "map b64_char (b64_sextets ns)"
  have sx: "list_all (\<lambda>n. n < 64) (b64_sextets ns)"
    using assms by (rule sextets_bound)
  then have body_alpha: "\<forall>c \<in> set ?body. c \<in> set b64_alphabet"
    by (auto simp: list_all_iff b64_char_in_alphabet)
  have nospace: "filter (\<lambda>c. \<not> ascii_whitespace c) (b64_encode ns) = b64_encode ns"
    using body_alpha
    by (auto simp: b64_encode_def b64_padding_def filter_id_conv alphabet_not_space pad_not_space
        simp del: map_map)
  have nopad: "\<forall>c \<in> set ?body. c \<noteq> CHR ''=''"
    using body_alpha alphabet_not_pad by blast
  obtain k where "k \<le> 2" "b64_padding (length ns) = replicate k (CHR ''='')"
    using b64_padding_short by blast
  with nopad have strip: "remove_padding (b64_encode ns) = ?body"
    by (simp add: b64_encode_def remove_padding_append)
  have len: "length ?body mod 4 \<noteq> 1"
    using length_sextets_mod[of ns] by simp
  show ?thesis
    using len
    by (simp add: atob_def nospace length_b64_encode strip
        those_index_chars[OF sx] octets_sextets[OF assms] del: map_map)
qed

text \<open>
  Claim C8.  For every byte sequence, the empty one and those longer than one chunk of
  \<^verbatim>\<open>0x8000\<close> bytes included, \<^verbatim>\<open>encodeBinary\<close> returns a wire text (its \<^verbatim>\<open>btoa\<close> does not
  throw), and decoding that text as \<^verbatim>\<open>decodeMessage\<close> does (\<^verbatim>\<open>atob\<close>, then one byte per
  character) gives back exactly the bytes.
\<close>

theorem C8_binary_round_trip:
  "\<exists>wire. encodeBinary bytes = Some wire \<and> decodeMessage_bytes wire = Some bytes"
proof -
  have all_small: "list_all (\<lambda>c. c \<le> 0xFF) (map ucast bytes :: jsstring)"
    by (simp add: list_all_iff ucast_byte_le)
  have units: "map unat (map ucast bytes :: jsstring) = map unat bytes"
    by (simp add: unat_ucast_byte)
  have octets: "list_all (\<lambda>n. n < 256) (map unat bytes)"
    by (simp add: list_all_iff unat_byte_less)
  have enc: "encodeBinary bytes = Some (b64_encode (map unat bytes))"
    using all_small by (simp add: encodeBinary_def encodeBinary_loop_eq btoa_def units del: map_map)
  have "map ucast (map of_nat (map unat bytes) :: jsstring) = bytes"
    by (simp add: ucast_ucast_byte comp_def)
  then have dec: "decodeMessage_bytes (b64_encode (map unat bytes)) = Some bytes"
    by (simp add: decodeMessage_bytes_def atob_b64_encode[OF octets])
  from enc dec show ?thesis by blast
qed

theorem C8_binary_round_trip_witness:
  "encodeBinary [0x00, 0xFF, 0x10, 0x80] = Some ''AP8QgA==''
   \<and> decodeMessage_bytes ''AP8QgA=='' = Some [0x00, 0xFF, 0x10, 0x80]"
proof -
  have enc: "encodeBinary [0x00, 0xFF, 0x10, 0x80] = Some ''AP8QgA==''"
    by (simp add: encodeBinary_def encodeBinary_loop_eq btoa_def b64_encode_def
        b64_padding_def b64_char_def b64_alphabet_def replicate_two)
  with C8_binary_round_trip [of "[0x00, 0xFF, 0x10, 0x80]"] show ?thesis
    by auto
qed

section \<open>Errors of send, and transport failures\<close>

lemmas lifecycle_defs = emit_def changeState_def fetch_def handleClose_def handleError_def
  handleOpen_def

lemmas drain_defs = submit_def drain_break_def drain_send_def drain_binary_def
  flushQueue_loop_def drain_acked_def flushQueue_def queueSend_def socket_send_def

text \<open>
  Claim C5.  In every state other than \<^verbatim>\<open>OPEN\<close> and for every payload, \<^verbatim>\<open>send\<close> throws
  (\<^verbatim>\<open>WebSocket is not open\<close>) to its caller, and the turn leaves the socket as it was:
  nothing is queued, and \<^verbatim>\<open>bufferedAmount\<close> and \<^verbatim>\<open>readyState\<close> keep their values.
\<close>

theorem C5_send_rejected_unless_open:
  "readyState s \<noteq> OPEN \<Longrightarrow>
     socket_send data s = Inl (Error ''WebSocket is not open'')
     \<and> step pf (CallSend data) s = Some s"
  by (simp add: socket_send_def queueSend_def)

theorem C5_send_rejected_unless_open_witness:
  "readyState createHttpBridgeWebSocket \<noteq> OPEN
   \<and> socket_send (StringData []) createHttpBridgeWebSocket = Inl (Error ''WebSocket is not open'')
   \<and> step example_platform (CallSend (StringData [])) createHttpBridgeWebSocket
       = Some createHttpBridgeWebSocket"
proof -
  have connecting_state: "readyState createHttpBridgeWebSocket \<noteq> OPEN"
    by (simp add: createHttpBridgeWebSocket_def)
  from C5_send_rejected_unless_open [OF connecting_state] connecting_state
  show ?thesis by blast
qed


lemma handleError_closed: "isClosed s \<Longrightarrow> handleError err s = s"
  by (simp add: handleError_def)

lemma handleClose_closed: "isClosed s \<Longrightarrow> handleClose code reason wasClean s = s"
  by (simp add: handleClose_def)





section \<open>Unsupported payloads and inbound messages\<close>




text \<open>
  Claim C7, as the code has it.  For an inbound item received while \<^verbatim>\<open>OPEN\<close> that is
  not a close notification and whose data is valid radix-64, the message event carries:
  the UTF-8 decoding of the decoded bytes when the item's \<^verbatim>\<open>messageType\<close> field is
  \<^verbatim>\<open>text\<close>; otherwise the bytes as an \<^verbatim>\<open>ArrayBuffer\<close> when the binary mode is
  \<^verbatim>\<open>arraybuffer\<close> and as a \<^verbatim>\<open>Blob\<close> when it is not.  The \<^verbatim>\<open>type\<close> field is read
  only to recognise a close notification.
\<close>

theorem C7_message_kind:
  "readyState s = OPEN \<Longrightarrow> msg_type m \<noteq> Some ''close'' \<Longrightarrow>
   msg_data m = Some wire \<Longrightarrow> decodeMessage_bytes wire = Some bytes \<Longrightarrow>
     handleMessage pf m s =
       emit (MessageEvent
               (if msg_messageType m = Some ''text'' then TextMessage (textDecoder_decode pf bytes)
                else if binaryType s = ArrayBufferType then ArrayBufferMessage bytes
                else BlobMessage bytes)
               (url_origin pf)) s"
  by (simp add: handleMessage_def decodeMessage_def)

theorem C7_message_kind_witness:
  "handleMessage example_platform
     \<lparr>msg_type = Some ''message'', msg_messageType = Some ''text'', msg_data = Some ''aGk='',
      msg_code = None, msg_reason = None\<rparr>
     (createHttpBridgeWebSocket\<lparr>readyState := OPEN\<rparr>)
   = emit (MessageEvent (TextMessage [0x68, 0x69]) ''http://localhost'')
       (createHttpBridgeWebSocket\<lparr>readyState := OPEN\<rparr>)"
proof -
  let ?m = "\<lparr>msg_type = Some ''message'', msg_messageType = Some ''text'',
             msg_data = Some ''aGk='', msg_code = None, msg_reason = None\<rparr>"
  let ?s = "createHttpBridgeWebSocket\<lparr>readyState := OPEN\<rparr>"
  have bytes: "decodeMessage_bytes ''aGk='' = Some [0x68, 0x69]"
    by code_simp
  have "readyState ?s = OPEN" "msg_type ?m \<noteq> Some ''close''" "msg_data ?m = Some ''aGk=''"
    by simp_all
  from C7_message_kind [OF this bytes, of example_platform] show ?thesis
    by (simp add: example_platform_def)
qed

text \<open>
  Claim C7 as stated fails: an item whose \<^verbatim>\<open>type\<close> field is \<^verbatim>\<open>text\<close> and that has no
  \<^verbatim>\<open>messageType\<close> field is delivered as a \<^verbatim>\<open>Blob\<close>.
\<close>

theorem C7_type_text_delivered_as_blob:
  "map_option emitted
     (run example_platform
        [ConnectResolved (Some ''c1'') None,
         PollResolved [\<lparr>msg_type = Some ''text'', msg_messageType = None,
                        msg_data = Some ''aGk='', msg_code = None, msg_reason = None\<rparr>]]
        createHttpBridgeWebSocket)
     = Some [OpenEvent, MessageEvent (BlobMessage [0x68, 0x69]) ''http://localhost'']"
  by code_simp

section \<open>The lifecycle of a socket\<close>

lemma lifecycle_inv_init: "lifecycle_inv createHttpBridgeWebSocket"
  by (simp add: lifecycle_inv_def createHttpBridgeWebSocket_def close_events_def)

lemma lifecycle_inv_handleClose:
  "lifecycle_inv s \<Longrightarrow> lifecycle_inv (handleClose code reason wasClean s)"
  by (auto simp: lifecycle_inv_def close_events_def lifecycle_defs)

lemma lifecycle_inv_handleError:
  "lifecycle_inv s \<Longrightarrow> lifecycle_inv (handleError err s)"
  by (auto simp: lifecycle_inv_def close_events_def lifecycle_defs)

text \<open>Fields that the lifecycle invariant does not read may change freely.\<close>

lemma lifecycle_inv_cong:
  "lifecycle_inv s \<Longrightarrow> connecting s' = connecting s \<Longrightarrow> polling s' = polling s \<Longrightarrow>
   connId s' = connId s \<Longrightarrow> readyState s' = readyState s \<Longrightarrow> isClosed s' = isClosed s \<Longrightarrow>
   closers s' = closers s \<Longrightarrow> close_events s' = close_events s \<Longrightarrow> lifecycle_inv s'"
  by (simp add: lifecycle_inv_def)

lemma lifecycle_inv_drain_break:
  "lifecycle_inv s \<Longrightarrow> lifecycle_inv (drain_break err s)"
  unfolding drain_break_def
  by (rule lifecycle_inv_cong[OF lifecycle_inv_handleError]) (simp_all add: close_events_def)

lemma lifecycle_inv_drain_send:
  "lifecycle_inv s \<Longrightarrow> lifecycle_inv (drain_send rawData sz f s)"
  by (erule lifecycle_inv_cong) (simp_all add: drain_send_def submit_def fetch_def close_events_def)

lemma lifecycle_inv_drain_binary:
  "lifecycle_inv s \<Longrightarrow> lifecycle_inv (drain_binary rawData sz bytes s)"
  by (simp add: drain_binary_def lifecycle_inv_drain_break lifecycle_inv_drain_send
      split: option.splits)

lemma lifecycle_inv_flushQueue_loop:
  assumes "lifecycle_inv s"
  shows "lifecycle_inv (flushQueue_loop s)"
proof -
  have a: "lifecycle_inv (s\<lparr>isSending := False\<rparr>)"
    using assms by (rule lifecycle_inv_cong) (simp_all add: close_events_def)
  have b: "\<And>t. lifecycle_inv (s\<lparr>drains := t\<rparr>)"
    using assms by (rule lifecycle_inv_cong) (simp_all add: close_events_def)
  show ?thesis
    using assms a b
    by (simp add: flushQueue_loop_def lifecycle_inv_drain_break lifecycle_inv_drain_send
        lifecycle_inv_drain_binary split: prod.splits payload.splits)
qed

lemma lifecycle_inv_flushQueue:
  assumes "lifecycle_inv s"
  shows "lifecycle_inv (flushQueue s)"
proof -
  have "lifecycle_inv (s\<lparr>isSending := True\<rparr>)"
    using assms by (rule lifecycle_inv_cong) (simp_all add: close_events_def)
  then show ?thesis
    using assms by (simp add: flushQueue_def lifecycle_inv_flushQueue_loop)
qed

lemma lifecycle_inv_handleMessage:
  "lifecycle_inv s \<Longrightarrow> lifecycle_inv (handleMessage pf m s)"
proof -
  assume inv: "lifecycle_inv s"
  have "\<And>e. \<not> is_close_event e \<Longrightarrow> lifecycle_inv (emit e s)"
    using inv by (rule lifecycle_inv_cong) (simp_all add: emit_def close_events_def)
  then show ?thesis
    using inv by (simp add: handleMessage_def lifecycle_inv_handleClose split: option.splits)
qed

lemma handleMessage_fields:
  "connecting (handleMessage pf m s) = connecting s \<and> polling (handleMessage pf m s) = polling s"
  by (simp add: handleMessage_def lifecycle_defs split: option.splits)

lemma fold_handleMessage:
  "lifecycle_inv s \<Longrightarrow>
     lifecycle_inv (fold (handleMessage pf) ms s)
     \<and> connecting (fold (handleMessage pf) ms s) = connecting s
     \<and> polling (fold (handleMessage pf) ms s) = polling s"
  by (induction ms arbitrary: s) (simp_all add: lifecycle_inv_handleMessage handleMessage_fields)

lemma lifecycle_inv_step:
  assumes inv: "lifecycle_inv s" and st: "step pf t s = Some s'"
  shows "lifecycle_inv s'"
proof (cases t)
  case (CallSend data)
  show ?thesis
  proof (cases "readyState s = OPEN")
    case True
    let ?q = "s\<lparr>sendQueue := sendQueue s @ [(data, calculateSize data)],
                 bufferedAmount := bufferedAmount s + calculateSize data\<rparr>"
    have "lifecycle_inv ?q"
      using inv by (rule lifecycle_inv_cong) (simp_all add: close_events_def)
    then have "lifecycle_inv (flushQueue ?q)" by (rule lifecycle_inv_flushQueue)
    then have "lifecycle_inv ((flushQueue ?q)\<lparr>accepted := accepted (flushQueue ?q) @ [data]\<rparr>)"
      by (rule lifecycle_inv_cong) (simp_all add: close_events_def)
    with st CallSend True show ?thesis
      by (simp add: socket_send_def queueSend_def)
  next
    case False
    with st CallSend inv show ?thesis
      by (simp add: socket_send_def queueSend_def)
  qed
next
  case (CallClose code reason)
  with st have "s' = socket_close code reason s" by simp
  with inv show ?thesis
    by (auto simp: lifecycle_inv_def socket_close_def Let_def close_events_def lifecycle_defs
        submit_def truthy_def)
next
  case (SetBinaryType v)
  with st have "s' = set_binaryType v s" by simp
  with inv show ?thesis
    by (simp add: lifecycle_inv_def set_binaryType_def close_events_def)
next
  case (ConnectResolved cid negotiated)
  with st inv show ?thesis
    by (auto simp: lifecycle_inv_def startPolling_loop_def close_events_def lifecycle_defs
        split: if_splits)
next
  case (ConnectRejected err)
  with st inv show ?thesis
    by (auto simp: lifecycle_inv_def close_events_def lifecycle_defs split: if_splits)
next
  case (BlobResolved k)
  have "lifecycle_inv (s\<lparr>drains := remove_nth k (drains s)\<rparr>)"
    using inv by (rule lifecycle_inv_cong) (simp_all add: close_events_def)
  with st BlobResolved show ?thesis
    by (auto simp: lifecycle_inv_drain_binary split: if_splits drain_task.splits payload.splits)
next
  case (BlobRejected k err)
  have "lifecycle_inv (s\<lparr>drains := remove_nth k (drains s)\<rparr>)"
    using inv by (rule lifecycle_inv_cong) (simp_all add: close_events_def)
  with st BlobRejected show ?thesis
    by (auto simp: lifecycle_inv_drain_break split: if_splits drain_task.splits)
next
  case (SendResolved k)
  have "\<And>q b. lifecycle_inv (s\<lparr>drains := remove_nth k (drains s), sendQueue := q,
                                  bufferedAmount := b\<rparr>)"
    using inv by (rule lifecycle_inv_cong) (simp_all add: close_events_def)
  with st SendResolved show ?thesis
    by (auto simp: drain_acked_def lifecycle_inv_flushQueue_loop
        split: if_splits drain_task.splits)
next
  case (SendRejected k err)
  have "lifecycle_inv (s\<lparr>drains := remove_nth k (drains s)\<rparr>)"
    using inv by (rule lifecycle_inv_cong) (simp_all add: close_events_def)
  with st SendRejected show ?thesis
    by (auto simp: lifecycle_inv_drain_break split: if_splits drain_task.splits)
next
  case (PollResolved ms)
  with st have pos: "0 < polling s"
    and s': "s' = poll_resolved pf ms (s\<lparr>polling := polling s - 1\<rparr>)"
    by (simp_all split: if_splits)
  let ?p = "s\<lparr>polling := polling s - 1\<rparr>"
  let ?f = "fold (handleMessage pf) ms ?p"
  from inv pos have nc: "\<not> connecting s" by (auto simp: lifecycle_inv_def)
  from inv pos have "lifecycle_inv ?p"
    by (auto simp: lifecycle_inv_def close_events_def)
  then have f: "lifecycle_inv ?f" "connecting ?f = connecting ?p"
    using fold_handleMessage by blast+
  with nc have "lifecycle_inv (startPolling_loop ?f)"
    by (auto simp: lifecycle_inv_def startPolling_loop_def close_events_def fetch_def)
  then show ?thesis by (simp add: s' poll_resolved_def)
next
  case (PollRejected err)
  with st have pos: "0 < polling s"
    and s': "s' = poll_rejected err (s\<lparr>polling := polling s - 1\<rparr>)"
    by (simp_all split: if_splits)
  from inv pos have "lifecycle_inv (s\<lparr>polling := polling s - 1\<rparr>)"
    by (auto simp: lifecycle_inv_def close_events_def)
  then show ?thesis
    by (simp add: s' poll_rejected_def lifecycle_inv_handleError)
next
  case (CloseSettled k)
  with st inv show ?thesis
    by (auto simp: lifecycle_inv_def close_settled_def close_events_def lifecycle_defs
        split: if_splits prod.splits)
qed

lemma lifecycle_inv_run:
  "run pf ts s = Some s' \<Longrightarrow> lifecycle_inv s \<Longrightarrow> lifecycle_inv s'"
proof (induction ts arbitrary: s)
  case Nil
  then show ?case by simp
next
  case (Cons t ts)
  then show ?case
    by (auto split: option.splits dest: lifecycle_inv_step)
qed

lemma lifecycle_inv_reachable:
  "run pf ts createHttpBridgeWebSocket = Some s \<Longrightarrow> lifecycle_inv s"
  using lifecycle_inv_run lifecycle_inv_init by blast

lemma socket_close_closed: "isClosed s \<Longrightarrow> socket_close c r s = s"
  by (simp add: socket_close_def)

lemma socket_close_idem: "socket_close codeB reasonB (socket_close codeA reasonA s) = socket_close codeA reasonA s"
  by (simp add: socket_close_def Let_def lifecycle_defs submit_def)

lemma handleMessage_close_closed:
  "isClosed s \<Longrightarrow> msg_type m = Some ''close'' \<Longrightarrow> handleMessage pf m s = s"
  by (simp add: handleMessage_def handleClose_closed)

lemma close_count:
  "lifecycle_inv s \<Longrightarrow> length (close_events s) = (if isClosed s then 1 else 0)"
  by (simp add: lifecycle_inv_def)

lemma close_settles:
  assumes "lifecycle_inv s" and "k < length (closers s)"
  shows "\<exists>s'. step pf (CloseSettled k) s = Some s' \<and> isClosed s' \<and> length (close_events s') = 1"
proof -
  obtain code reason where cr: "closers s ! k = (code, reason)" by (cases "closers s ! k")
  let ?s' = "close_settled code reason (s\<lparr>closers := remove_nth k (closers s)\<rparr>)"
  have st: "step pf (CloseSettled k) s = Some ?s'" using assms(2) cr by simp
  have closed: "isClosed ?s'" by (simp add: close_settled_def lifecycle_defs)
  from assms(1) st have "lifecycle_inv ?s'" by (rule lifecycle_inv_step)
  with closed have "length (close_events ?s') = 1" by (simp add: close_count)
  with st closed show ?thesis by blast
qed

lemma closing_pending:
  "lifecycle_inv s \<Longrightarrow> isClosed (socket_close c r s) \<or> closers (socket_close c r s) \<noteq> []"
  by (auto simp: lifecycle_inv_def socket_close_def Let_def lifecycle_defs submit_def)

text \<open>
  Claim C2.  In every execution: the number of close events emitted is 1 when the closed
  flag is set and 0 when it is not; once the flag is set, \<^verbatim>\<open>handleClose\<close>,
  \<^verbatim>\<open>handleError\<close>, \<^verbatim>\<open>close()\<close> and a remote close notification leave the socket as it
  is; a second \<^verbatim>\<open>close()\<close> right after a first changes nothing; and after the two calls
  either the socket is finalized with exactly one close event, or no close event has
  been emitted yet, the close frame's request is pending, and its settlement finalizes
  the socket with exactly one close event.
\<close>

theorem C2_finalization_once:
  assumes "run pf ts createHttpBridgeWebSocket = Some s"
  shows "length (close_events s) = (if isClosed s then 1 else 0)
    \<and> (isClosed s \<longrightarrow>
          handleClose code reason wasClean s = s \<and> handleError err s = s
          \<and> socket_close codeA reasonA s = s
          \<and> (msg_type m = Some ''close'' \<longrightarrow> handleMessage pf m s = s))
    \<and> run pf [CallClose codeA reasonA, CallClose codeB reasonB] s = Some (socket_close codeA reasonA s)
    \<and> (isClosed (socket_close codeA reasonA s) \<and> length (close_events (socket_close codeA reasonA s)) = 1
        \<or> \<not> isClosed (socket_close codeA reasonA s) \<and> close_events (socket_close codeA reasonA s) = []
          \<and> closers (socket_close codeA reasonA s) \<noteq> []
          \<and> (\<forall>k < length (closers (socket_close codeA reasonA s)).
                \<exists>s'. step pf (CloseSettled k) (socket_close codeA reasonA s) = Some s'
                      \<and> isClosed s' \<and> length (close_events s') = 1))"
proof -
  let ?c = "socket_close codeA reasonA s"
  have inv: "lifecycle_inv s" using assms by (rule lifecycle_inv_reachable)
  have "step pf (CallClose codeA reasonA) s = Some ?c" by simp
  with inv have inv_c: "lifecycle_inv ?c" by (rule lifecycle_inv_step)
  have count: "length (close_events s) = (if isClosed s then 1 else 0)"
    using inv by (rule close_count)
  have noop: "isClosed s \<longrightarrow>
          handleClose code reason wasClean s = s \<and> handleError err s = s
          \<and> socket_close codeA reasonA s = s
          \<and> (msg_type m = Some ''close'' \<longrightarrow> handleMessage pf m s = s)"
    by (simp add: handleClose_closed handleError_closed socket_close_closed
        handleMessage_close_closed)
  have twice: "run pf [CallClose codeA reasonA, CallClose codeB reasonB] s = Some ?c"
    by (simp add: socket_close_idem)
  have after: "isClosed ?c \<and> length (close_events ?c) = 1
        \<or> \<not> isClosed ?c \<and> close_events ?c = [] \<and> closers ?c \<noteq> []
          \<and> (\<forall>k < length (closers ?c).
                \<exists>s'. step pf (CloseSettled k) ?c = Some s'
                      \<and> isClosed s' \<and> length (close_events s') = 1)"
  proof (cases "isClosed ?c")
    case True
    then show ?thesis using close_count[OF inv_c] by simp
  next
    case False
    moreover from False have "close_events ?c = []" using close_count[OF inv_c] by simp
    moreover from False have "closers ?c \<noteq> []" using closing_pending[OF inv] by blast
    ultimately show ?thesis using close_settles[OF inv_c] by blast
  qed
  from count noop twice after show ?thesis by blast
qed

lemma run_open_socket:
  "run pf [ConnectResolved (Some ''c1'') None] createHttpBridgeWebSocket = Some open_socket"
  by (simp add: open_socket_def createHttpBridgeWebSocket_def startPolling_loop_def lifecycle_defs)

theorem C2_finalization_once_witness:
  "run example_platform [ConnectResolved (Some ''c1'') None] createHttpBridgeWebSocket
     = Some open_socket
   \<and> run example_platform [CallClose None None, CallClose (Some 4000) None] open_socket
     = Some (socket_close None None open_socket)
   \<and> close_events (socket_close None None open_socket) = []
   \<and> map_option close_events (step example_platform (CloseSettled 0) (socket_close None None open_socket))
     = Some [CloseEvent 1000 [] True]"
proof -
  have reach: "run example_platform [ConnectResolved (Some ''c1'') None] createHttpBridgeWebSocket
     = Some open_socket"
    by (rule run_open_socket)
  have pending: "\<not> isClosed (socket_close None None open_socket)"
    by (simp add: open_socket_def createHttpBridgeWebSocket_def socket_close_def truthy_def
        lifecycle_defs submit_def)
  have settled: "map_option close_events
      (step example_platform (CloseSettled 0) (socket_close None None open_socket))
     = Some [CloseEvent 1000 [] True]"
    by (simp add: open_socket_def createHttpBridgeWebSocket_def socket_close_def truthy_def
        lifecycle_defs submit_def close_settled_def remove_nth_def close_events_def)
  from C2_finalization_once [OF reach, where codeA = None and reasonA = None
      and codeB = "Some 4000" and reasonB = None] pending settled reach
  show ?thesis by blast
qed

section \<open>State transitions\<close>

lemma keeps_refl: "keeps_or_closes s s"
  by (simp add: keeps_or_closes_def)

lemma keeps_trans:
  "keeps_or_closes s s' \<Longrightarrow> keeps_or_closes s' s'' \<Longrightarrow> keeps_or_closes s s''"
  by (auto simp: keeps_or_closes_def)

lemma keeps_same:
  "readyState s' = readyState s \<Longrightarrow> isClosed s' = isClosed s \<Longrightarrow> keeps_or_closes s s'"
  by (simp add: keeps_or_closes_def)

lemma keeps_handleClose: "keeps_or_closes s (handleClose code reason wasClean s)"
  by (simp add: keeps_or_closes_def lifecycle_defs)

lemma keeps_handleError: "keeps_or_closes s (handleError err s)"
  by (simp add: keeps_or_closes_def lifecycle_defs)

lemma keeps_drain_break: "keeps_or_closes s (drain_break err s)"
  by (simp add: keeps_or_closes_def drain_break_def lifecycle_defs)

lemma keeps_drain_binary: "keeps_or_closes s (drain_binary rawData sz bytes s)"
  by (simp add: drain_binary_def keeps_drain_break keeps_same drain_send_def submit_def fetch_def
      split: option.splits)

lemma keeps_flushQueue_loop: "keeps_or_closes s (flushQueue_loop s)"
  by (simp add: flushQueue_loop_def keeps_drain_break keeps_drain_binary keeps_same
      drain_send_def submit_def fetch_def split: prod.splits payload.splits)

lemma keeps_flushQueue: "keeps_or_closes s (flushQueue s)"
proof -
  have "keeps_or_closes s (s\<lparr>isSending := True\<rparr>)" by (simp add: keeps_same)
  then have "keeps_or_closes s (flushQueue_loop (s\<lparr>isSending := True\<rparr>))"
    using keeps_flushQueue_loop by (rule keeps_trans)
  then show ?thesis by (simp add: flushQueue_def keeps_refl)
qed

lemma keeps_handleMessage: "keeps_or_closes s (handleMessage pf m s)"
  by (simp add: handleMessage_def keeps_refl keeps_handleClose keeps_same emit_def
      split: option.splits)

lemma keeps_fold_handleMessage: "keeps_or_closes s (fold (handleMessage pf) ms s)"
proof (induction ms arbitrary: s)
  case Nil
  show ?case by (simp add: keeps_refl)
next
  case (Cons m ms)
  have "keeps_or_closes s (handleMessage pf m s)" by (rule keeps_handleMessage)
  then show ?case using Cons by (simp add: keeps_trans)
qed

lemma keeps_step:
  assumes "step pf t s = Some s'" and "\<not> is_connect_resolved t"
    and "\<not> is_call_close t"
  shows "keeps_or_closes s s'"
proof (cases t)
  case (CallSend data)
  let ?q = "s\<lparr>sendQueue := sendQueue s @ [(data, calculateSize data)],
               bufferedAmount := bufferedAmount s + calculateSize data\<rparr>"
  have "keeps_or_closes s ?q" by (simp add: keeps_same)
  then have "keeps_or_closes s (flushQueue ?q)" using keeps_flushQueue by (rule keeps_trans)
  then have "keeps_or_closes s ((flushQueue ?q)\<lparr>accepted := accepted (flushQueue ?q) @ [data]\<rparr>)"
    by (simp add: keeps_or_closes_def)
  with assms(1) CallSend show ?thesis
    by (auto simp: socket_send_def queueSend_def keeps_refl split: if_splits)
next
  case (CallClose code reason)
  with assms(3) show ?thesis by simp
next
  case (SetBinaryType v)
  with assms(1) show ?thesis by (auto simp: set_binaryType_def keeps_same)
next
  case (ConnectResolved cid negotiated)
  with assms(2) show ?thesis by simp
next
  case (ConnectRejected err)
  have "keeps_or_closes s (s\<lparr>connecting := False\<rparr>)" by (simp add: keeps_same)
  then have "keeps_or_closes s (handleError err (s\<lparr>connecting := False\<rparr>))"
    using keeps_handleError by (rule keeps_trans)
  with assms(1) ConnectRejected show ?thesis by (auto split: if_splits)
next
  case (BlobResolved k)
  let ?d = "s\<lparr>drains := remove_nth k (drains s)\<rparr>"
  have "keeps_or_closes s ?d" by (simp add: keeps_same)
  then have "\<And>rawData sz bytes. keeps_or_closes s (drain_binary rawData sz bytes ?d)"
    using keeps_drain_binary by (rule keeps_trans)
  with assms(1) BlobResolved show ?thesis
    by (auto split: if_splits drain_task.splits payload.splits)
next
  case (BlobRejected k err)
  let ?d = "s\<lparr>drains := remove_nth k (drains s)\<rparr>"
  have "keeps_or_closes s ?d" by (simp add: keeps_same)
  then have "keeps_or_closes s (drain_break err ?d)"
    using keeps_drain_break by (rule keeps_trans)
  with assms(1) BlobRejected show ?thesis
    by (auto split: if_splits drain_task.splits)
next
  case (SendResolved k)
  have "\<And>q b. keeps_or_closes s (s\<lparr>drains := remove_nth k (drains s), sendQueue := q,
      bufferedAmount := b\<rparr>)"
    by (simp add: keeps_same)
  then have "\<And>q b. keeps_or_closes s (flushQueue_loop (s\<lparr>drains := remove_nth k (drains s),
      sendQueue := q, bufferedAmount := b\<rparr>))"
    using keeps_flushQueue_loop by (rule keeps_trans)
  with assms(1) SendResolved show ?thesis
    by (auto simp: drain_acked_def split: if_splits drain_task.splits)
next
  case (SendRejected k err)
  let ?d = "s\<lparr>drains := remove_nth k (drains s)\<rparr>"
  have "keeps_or_closes s ?d" by (simp add: keeps_same)
  then have "keeps_or_closes s (drain_break err ?d)"
    using keeps_drain_break by (rule keeps_trans)
  with assms(1) SendRejected show ?thesis
    by (auto split: if_splits drain_task.splits)
next
  case (PollResolved ms)
  let ?p = "s\<lparr>polling := polling s - 1\<rparr>"
  have "keeps_or_closes s ?p" by (simp add: keeps_same)
  then have "keeps_or_closes s (fold (handleMessage pf) ms ?p)"
    using keeps_fold_handleMessage by (rule keeps_trans)
  moreover have "\<And>x. keeps_or_closes x (startPolling_loop x)"
    by (simp add: startPolling_loop_def keeps_same fetch_def)
  ultimately have "keeps_or_closes s (poll_resolved pf ms ?p)"
    unfolding poll_resolved_def by (rule keeps_trans)
  with assms(1) PollResolved show ?thesis by (auto split: if_splits)
next
  case (PollRejected err)
  let ?p = "s\<lparr>polling := polling s - 1\<rparr>"
  have "keeps_or_closes s ?p" by (simp add: keeps_same)
  moreover have "keeps_or_closes ?p (poll_rejected err ?p)"
    by (simp add: poll_rejected_def keeps_handleError keeps_refl)
  ultimately have "keeps_or_closes s (poll_rejected err ?p)" by (rule keeps_trans)
  with assms(1) PollRejected show ?thesis by (auto split: if_splits)
next
  case (CloseSettled k)
  have "\<And>code reason. keeps_or_closes s
      (close_settled code reason (s\<lparr>closers := remove_nth k (closers s)\<rparr>))"
    by (simp add: keeps_or_closes_def close_settled_def lifecycle_defs)
  with assms(1) CloseSettled show ?thesis
    by (auto split: if_splits prod.splits)
qed

text \<open>
  Claim C3, as the code has it.  In every execution, every turn other than the success
  of the open request arriving after the socket was finalized either keeps the state or
  makes one of the transitions \<^verbatim>\<open>CONNECTING\<close> to \<^verbatim>\<open>OPEN\<close>, \<^verbatim>\<open>OPEN\<close> to \<^verbatim>\<open>CLOSING\<close>,
  \<^verbatim>\<open>CLOSING\<close> to \<^verbatim>\<open>CLOSED\<close>, \<^verbatim>\<open>CONNECTING\<close> to \<^verbatim>\<open>CLOSED\<close>, or \<^verbatim>\<open>OPEN\<close> to
  \<^verbatim>\<open>CLOSED\<close> (a remote close notification, a transport failure, or \<^verbatim>\<open>close()\<close> without a
  connection identifier, while \<^verbatim>\<open>OPEN\<close>).
\<close>

theorem C3_transitions:
  assumes reach: "run pf ts createHttpBridgeWebSocket = Some s"
    and st: "step pf t s = Some s'"
    and not_slip: "\<not> (isClosed s \<and> is_connect_resolved t)"
  shows "readyState s' = readyState s \<or> allowed_transition (readyState s) (readyState s')"
proof -
  have inv: "lifecycle_inv s" using reach by (rule lifecycle_inv_reachable)
  show ?thesis
  proof (cases t)
    case (ConnectResolved cid negotiated)
    with st not_slip inv show ?thesis
      by (auto simp: lifecycle_inv_def allowed_transition_def startPolling_loop_def
          lifecycle_defs split: if_splits)
  next
    case (CallClose code reason)
    with st have "s' = socket_close code reason s" by simp
    with inv show ?thesis
      by (cases "readyState s")
         (auto simp: lifecycle_inv_def allowed_transition_def socket_close_def Let_def
           lifecycle_defs submit_def truthy_def)
  qed (use st inv keeps_step[OF st] in
      \<open>(cases "readyState s"; auto simp: keeps_or_closes_def lifecycle_inv_def
            allowed_transition_def)+\<close>)
qed

theorem C3_transitions_witness:
  "run example_platform [ConnectResolved (Some ''c1'') None] createHttpBridgeWebSocket
     = Some open_socket
   \<and> step example_platform (CallClose None None) open_socket
     = Some (socket_close None None open_socket)
   \<and> readyState open_socket = OPEN
   \<and> readyState (socket_close None None open_socket) = CLOSING
   \<and> allowed_transition OPEN CLOSING"
proof -
  have reach: "run example_platform [ConnectResolved (Some ''c1'') None] createHttpBridgeWebSocket
     = Some open_socket"
    by (rule run_open_socket)
  have st: "step example_platform (CallClose None None) open_socket
     = Some (socket_close None None open_socket)"
    by simp
  have not_slip: "\<not> (isClosed open_socket \<and> is_connect_resolved (CallClose None None))"
    by simp
  have before: "readyState open_socket = OPEN"
    by (simp add: open_socket_def)
  have after: "readyState (socket_close None None open_socket) = CLOSING"
    by (simp add: open_socket_def createHttpBridgeWebSocket_def socket_close_def truthy_def
        lifecycle_defs submit_def)
  from C3_transitions [OF reach st not_slip] before after reach st show ?thesis
    by simp
qed

text \<open>
  Claim C3 as stated fails: a remote close notification received while \<^verbatim>\<open>OPEN\<close> takes
  the state from \<^verbatim>\<open>OPEN\<close> to \<^verbatim>\<open>CLOSED\<close> directly.
\<close>

theorem C3_open_to_closed:
  "map_option readyState
     (run example_platform [ConnectResolved (Some ''c1'') None] createHttpBridgeWebSocket)
     = Some OPEN
   \<and> map_option readyState
     (run example_platform
        [ConnectResolved (Some ''c1'') None,
         PollResolved [\<lparr>msg_type = Some ''close'', msg_messageType = None,
                        msg_data = None, msg_code = Some 1000, msg_reason = Some ''bye''\<rparr>]]
        createHttpBridgeWebSocket)
     = Some CLOSED"
  by code_simp

text \<open>
  The turn that the statement of claim C3 above leaves out: \<^verbatim>\<open>close()\<close> before the open request is
  answered finalizes the socket at once, and the later success of the open request calls
  \<^verbatim>\<open>handleOpen\<close>, which sets the state to \<^verbatim>\<open>OPEN\<close> without looking at the closed flag.
\<close>

theorem open_after_close:
  "map_option readyState
     (run example_platform [CallClose None None] createHttpBridgeWebSocket) = Some CLOSED
   \<and> map_option readyState
     (run example_platform [CallClose None None, ConnectResolved (Some ''c1'') None]
        createHttpBridgeWebSocket) = Some OPEN
   \<and> map_option emitted
     (run example_platform [CallClose None None, ConnectResolved (Some ''c1'') None]
        createHttpBridgeWebSocket) = Some [CloseEvent 1000 [] True, OpenEvent]"
  by code_simp




section \<open>The outbound queue\<close>

lemma encodeBinary_total: "encodeBinary bytes = Some (b64_encode (map unat bytes))"
proof -
  have "list_all (\<lambda>c. c \<le> 0xFF) (map ucast bytes :: jsstring)"
    by (simp add: list_all_iff ucast_byte_le)
  moreover have "map unat (map ucast bytes :: jsstring) = map unat bytes"
    by (simp add: unat_ucast_byte)
  ultimately show ?thesis
    by (simp add: encodeBinary_def encodeBinary_loop_eq btoa_def del: map_map)
qed

lemma calculateSize_nonneg: "0 \<le> calculateSize p"
  by (cases p) simp_all

lemma sum_sizes_nonneg: "0 \<le> sum_list (map calculateSize ps)"
  by (induction ps) (simp_all add: calculateSize_nonneg)

lemma queue_same_refl: "queue_same s s"
  by (simp add: queue_same_def)

lemma queue_same_trans: "queue_same s s' \<Longrightarrow> queue_same s' s'' \<Longrightarrow> queue_same s s''"
  by (simp add: queue_same_def)

lemma queue_inv_same:
  assumes "queue_inv k s" and "queue_same s s'"
  shows "queue_inv k s'"
proof (cases "drains s")
  case Nil
  with assms show ?thesis
    by (auto simp: queue_inv_def queue_same_def)
next
  case (Cons d ds)
  with assms show ?thesis
    by (cases d; cases ds) (auto simp: queue_inv_def queue_same_def)
qed

lemma data_frames_append_other:
  "\<not> is_data_request r \<Longrightarrow> data_frames (rs @ [r]) = data_frames rs"
  by (simp add: data_frames_def)

lemma queue_same_handleClose: "queue_same s (handleClose code reason wasClean s)"
  by (simp add: queue_same_def lifecycle_defs)

lemma queue_same_handleError: "queue_same s (handleError err s)"
  by (simp add: queue_same_def lifecycle_defs)

lemma queue_same_handleMessage: "queue_same s (handleMessage pf m s)"
  by (simp add: handleMessage_def queue_same_handleClose queue_same_refl split: option.splits)
     (simp add: queue_same_def emit_def)

lemma queue_same_fold: "queue_same s (fold (handleMessage pf) ms s)"
proof (induction ms arbitrary: s)
  case Nil
  show ?case by (simp add: queue_same_refl)
next
  case (Cons m ms)
  have "queue_same s (handleMessage pf m s)" by (rule queue_same_handleMessage)
  then show ?case using Cons by (simp add: queue_same_trans)
qed

lemma queue_same_startPolling_loop: "queue_same s (startPolling_loop s)"
  by (simp add: queue_same_def startPolling_loop_def fetch_def data_frames_append_other)

lemma queue_same_socket_close: "queue_same s (socket_close code reason s)"
  by (simp add: queue_same_def socket_close_def Let_def lifecycle_defs submit_def
      data_frames_append_other)

lemma data_frames_append_text:
  "data_frames (rs @ [SendRequest cid (TextFrame text)]) = data_frames rs @ [Some (TextFrame text)]"
  by (simp add: data_frames_def)

lemma data_frames_append_binary:
  "data_frames (rs @ [SendRequest cid (BinaryFrame data)])
     = data_frames rs @ [Some (BinaryFrame data)]"
  by (simp add: data_frames_def)

lemma frames_take_Suc:
  "k < length ps \<Longrightarrow> map frame_of (take (Suc k) ps) = map frame_of (take k ps) @ [frame_of (ps ! k)]"
  by (simp add: take_Suc_conv_app_nth)

lemma queue_head:
  "k < length ps \<Longrightarrow>
     hd (map (\<lambda>p. (p, calculateSize p)) (drop k ps)) = (ps ! k, calculateSize (ps ! k))"
  by (simp add: hd_map hd_drop_conv_nth)

lemma drain_break_fields:
  "isClosed (drain_break err s) \<and> \<not> isSending (drain_break err s)
   \<and> sendQueue (drain_break err s) = sendQueue s
   \<and> bufferedAmount (drain_break err s) = bufferedAmount s
   \<and> accepted (drain_break err s) = accepted s
   \<and> drains (drain_break err s) = drains s
   \<and> fetched (drain_break err s) = fetched s"
  by (simp add: drain_break_def lifecycle_defs)

lemma drain_send_fields:
  "isClosed (drain_send p sz f s) = isClosed s
   \<and> isSending (drain_send p sz f s) = isSending s
   \<and> sendQueue (drain_send p sz f s) = sendQueue s
   \<and> bufferedAmount (drain_send p sz f s) = bufferedAmount s
   \<and> accepted (drain_send p sz f s) = accepted s
   \<and> drains (drain_send p sz f s) = drains s @ [AwaitingAck p sz]
   \<and> fetched (drain_send p sz f s) = fetched s @ [SendRequest (connId s) f]"
  by (simp add: drain_send_def submit_def fetch_def)

lemma drain_binary_eq:
  "drain_binary p sz bytes s = drain_send p sz (BinaryFrame (b64_encode (map unat bytes))) s"
  by (simp add: drain_binary_def encodeBinary_total)

text \<open>The state at the loop test of the drain, and what the loop makes of it.\<close>

lemma queue_inv_flushQueue_loop:
  assumes k: "k \<le> length (accepted s)"
    and q: "sendQueue s = map (\<lambda>p. (p, calculateSize p)) (drop k (accepted s))"
    and b: "bufferedAmount s = sum_list (map calculateSize (drop k (accepted s)))"
    and d: "drains s = []"
    and sending: "isSending s"
    and sent: "data_frames (fetched s) = map frame_of (take k (accepted s))"
  shows "queue_inv k (flushQueue_loop s)"
proof (cases "sendQueue s \<noteq> [] \<and> \<not> isClosed s")
  case False
  then have "flushQueue_loop s = s\<lparr>isSending := False\<rparr>"
    by (auto simp: flushQueue_loop_def)
  moreover from False q k have "\<not> isClosed s \<longrightarrow> k = length (accepted s)"
    by auto
  ultimately show ?thesis
    using k q b d sent by (simp add: queue_inv_def)
next
  case True
  with q have lt: "k < length (accepted s)" by auto
  let ?p = "accepted s ! k"
  have head: "hd (sendQueue s) = (?p, calculateSize ?p)"
    unfolding q using lt by (rule queue_head)
  note next_frame = frames_take_Suc[OF lt]
  show ?thesis
  proof (cases "?p")
    case (StringData str)
    with True head have "flushQueue_loop s = drain_send ?p (calculateSize ?p) (TextFrame str) s"
      by (simp add: flushQueue_loop_def)
    then show ?thesis
      using k q b d sending sent lt next_frame StringData
      by (simp add: queue_inv_def drain_send_fields data_frames_append_text)
  next
    case (BlobData bytes)
    with True head have "flushQueue_loop s
        = s\<lparr>drains := drains s @ [AwaitingBlob ?p (calculateSize ?p)]\<rparr>"
      by (simp add: flushQueue_loop_def)
    then show ?thesis
      using k q b d sending sent lt
      by (simp add: queue_inv_def)
  next
    case (ArrayBufferData bytes)
    with True head have "flushQueue_loop s
        = drain_send ?p (calculateSize ?p) (BinaryFrame (b64_encode (map unat bytes))) s"
      by (simp add: flushQueue_loop_def drain_binary_eq)
    then show ?thesis
      using k q b d sending sent lt next_frame ArrayBufferData
      by (simp add: queue_inv_def drain_send_fields data_frames_append_binary
          encodeBinary_total)
  next
    case (ViewData buffer byteOffset byteLength)
    with True head have "flushQueue_loop s
        = drain_send ?p (calculateSize ?p)
            (BinaryFrame (b64_encode (map unat (take byteLength (drop byteOffset buffer))))) s"
      by (simp add: flushQueue_loop_def drain_binary_eq)
    then show ?thesis
      using k q b d sending sent lt next_frame ViewData
      by (simp add: queue_inv_def drain_send_fields data_frames_append_binary
          encodeBinary_total)
  next
    case OtherData
    with True head have "flushQueue_loop s = drain_break ''Unsupported data type'' s"
      by (simp add: flushQueue_loop_def)
    then show ?thesis
      using k q b d sent
      by (simp add: queue_inv_def drain_break_fields)
  qed
qed

lemma flushQueue_loop_accepted:
  "flushQueue_loop (s\<lparr>accepted := a\<rparr>) = (flushQueue_loop s)\<lparr>accepted := a\<rparr>"
  by (simp add: flushQueue_loop_def drain_send_def drain_binary_def drain_break_def submit_def
      lifecycle_defs split: prod.splits payload.splits option.splits)

lemma flushQueue_accepted:
  "flushQueue (s\<lparr>accepted := a\<rparr>) = (flushQueue s)\<lparr>accepted := a\<rparr>"
proof -
  have swap: "s\<lparr>accepted := a, isSending := True\<rparr> = (s\<lparr>isSending := True\<rparr>)\<lparr>accepted := a\<rparr>"
    by simp
  have "flushQueue_loop (s\<lparr>accepted := a, isSending := True\<rparr>)
      = (flushQueue_loop (s\<lparr>isSending := True\<rparr>))\<lparr>accepted := a\<rparr>"
    by (simp only: swap flushQueue_loop_accepted)
  then show ?thesis by (simp add: flushQueue_def)
qed

lemma flushQueue_keeps_accepted: "accepted (flushQueue s) = accepted s"
  by (simp add: flushQueue_def flushQueue_loop_def drain_send_def drain_binary_def
      drain_break_def submit_def lifecycle_defs split: prod.splits payload.splits option.splits)

lemma single_drain:
  assumes "queue_inv k s" and "j < length (drains s)"
  shows "j = 0 \<and> drains s = [drains s ! j]"
proof (cases "drains s")
  case Nil
  with assms(2) show ?thesis by simp
next
  case (Cons d ds)
  with assms show ?thesis
    by (cases d; cases ds) (auto simp: queue_inv_def)
qed

lemma queue_inv_send:
  assumes inv: "queue_inv k s"
  shows "queue_inv k
     (flushQueue (s\<lparr>sendQueue := sendQueue s @ [(data, calculateSize data)],
                    bufferedAmount := bufferedAmount s + calculateSize data,
                    accepted := accepted s @ [data]\<rparr>))"
proof -
  let ?s = "s\<lparr>sendQueue := sendQueue s @ [(data, calculateSize data)],
              bufferedAmount := bufferedAmount s + calculateSize data,
              accepted := accepted s @ [data]\<rparr>"
  from inv have k: "k \<le> length (accepted s)"
    and q: "sendQueue s = map (\<lambda>p. (p, calculateSize p)) (drop k (accepted s))"
    and b: "bufferedAmount s = sum_list (map calculateSize (drop k (accepted s)))"
    and sending: "isSending s \<longleftrightarrow> drains s \<noteq> []"
    by (simp_all add: queue_inv_def)
  have q': "sendQueue ?s = map (\<lambda>p. (p, calculateSize p)) (drop k (accepted ?s))"
    using k q by simp
  have b': "bufferedAmount ?s = sum_list (map calculateSize (drop k (accepted ?s)))"
    using k b by simp
  show ?thesis
  proof (cases "isSending s \<or> isClosed s")
    case True
    then have same: "flushQueue ?s = ?s" by (auto simp: flushQueue_def)
    have "queue_inv k ?s"
    proof (cases "drains s")
      case Nil
      with inv True sending k q' b' show ?thesis
        by (auto simp: queue_inv_def)
    next
      case (Cons d ds)
      with inv k q' b' show ?thesis
        by (cases d; cases ds) (auto simp: queue_inv_def nth_append)
    qed
    with same show ?thesis by simp
  next
    case False
    with sending have idle: "drains s = []" by simp
    with inv False have full: "k = length (accepted s)"
      and sent: "data_frames (fetched s) = map frame_of (take k (accepted s))"
      by (auto simp: queue_inv_def)
    from False have start: "flushQueue ?s = flushQueue_loop (?s\<lparr>isSending := True\<rparr>)"
      by (simp add: flushQueue_def)
    have "queue_inv k (flushQueue_loop (?s\<lparr>isSending := True\<rparr>))"
      using k q' b' idle sent
      by (intro queue_inv_flushQueue_loop) simp_all
    with start show ?thesis by simp
  qed
qed

lemma queue_inv_acked:
  assumes inv: "queue_inv k s" and d: "drains s = [AwaitingAck p sz]"
  shows "queue_inv (Suc k) (drain_acked sz (s\<lparr>drains := []\<rparr>))"
proof -
  from inv d have lt: "k < length (accepted s)"
    and p: "p = accepted s ! k" and sz: "sz = calculateSize p"
    and q: "sendQueue s = map (\<lambda>p. (p, calculateSize p)) (drop k (accepted s))"
    and b: "bufferedAmount s = sum_list (map calculateSize (drop k (accepted s)))"
    and sending: "isSending s"
    and sent: "data_frames (fetched s) = map frame_of (take (Suc k) (accepted s))"
    by (simp_all add: queue_inv_def)
  have split: "drop k (accepted s) = accepted s ! k # drop (Suc k) (accepted s)"
    using lt by (simp add: Cons_nth_drop_Suc)
  have rest: "tl (sendQueue s) = map (\<lambda>p. (p, calculateSize p)) (drop (Suc k) (accepted s))"
    by (simp add: q split)
  have amount: "bufferedAmount s - sz = sum_list (map calculateSize (drop (Suc k) (accepted s)))"
    by (simp add: b split p sz)
  then have "\<not> bufferedAmount s - sz < 0"
    using sum_sizes_nonneg[of "drop (Suc k) (accepted s)"] by simp
  then have "drain_acked sz (s\<lparr>drains := []\<rparr>)
      = flushQueue_loop (s\<lparr>drains := [], sendQueue := tl (sendQueue s),
                             bufferedAmount := bufferedAmount s - sz\<rparr>)"
    by (simp add: drain_acked_def)
  moreover have "queue_inv (Suc k)
      (flushQueue_loop (s\<lparr>drains := [], sendQueue := tl (sendQueue s),
                             bufferedAmount := bufferedAmount s - sz\<rparr>))"
    using lt rest amount sending sent
    by (intro queue_inv_flushQueue_loop) simp_all
  ultimately show ?thesis by simp
qed

lemma queue_inv_send_failed:
  assumes inv: "queue_inv k s" and d: "drains s = [AwaitingAck p sz]"
  shows "queue_inv k (drain_break err (s\<lparr>drains := []\<rparr>))"
  using inv d by (simp add: queue_inv_def drain_break_fields)

lemma queue_inv_blob_read:
  assumes inv: "queue_inv k s" and d: "drains s = [AwaitingBlob (BlobData bytes) sz]"
  shows "queue_inv k (drain_binary (BlobData bytes) sz bytes (s\<lparr>drains := []\<rparr>))"
proof -
  from inv d have lt: "k < length (accepted s)" and p: "accepted s ! k = BlobData bytes"
    by (simp_all add: queue_inv_def)
  from frames_take_Suc[OF lt] p
  have "map frame_of (take (Suc k) (accepted s))
      = map frame_of (take k (accepted s)) @ [Some (BinaryFrame (b64_encode (map unat bytes)))]"
    by (simp add: encodeBinary_total)
  with inv d show ?thesis
    by (simp add: queue_inv_def drain_binary_eq drain_send_fields data_frames_append_binary p)
qed

lemma queue_inv_blob_failed:
  assumes inv: "queue_inv k s" and d: "drains s = [AwaitingBlob p sz]"
  shows "queue_inv k (drain_break err (s\<lparr>drains := []\<rparr>))"
  using inv d by (simp add: queue_inv_def drain_break_fields)

lemma queue_inv_init: "queue_inv 0 createHttpBridgeWebSocket"
  by (simp add: queue_inv_def createHttpBridgeWebSocket_def data_frames_def)

lemma queue_inv_step:
  assumes inv: "queue_inv k s" and st: "step pf t s = Some s'"
  shows "queue_inv (if is_ack t then Suc k else k) s'"
proof (cases t)
  case (CallSend data)
  show ?thesis
  proof (cases "readyState s = OPEN")
    case True
    let ?q = "s\<lparr>sendQueue := sendQueue s @ [(data, calculateSize data)],
                 bufferedAmount := bufferedAmount s + calculateSize data\<rparr>"
    from st CallSend True
    have "s' = (flushQueue ?q)\<lparr>accepted := accepted (flushQueue ?q) @ [data]\<rparr>"
      by (simp add: socket_send_def queueSend_def)
    also have "\<dots> = flushQueue (?q\<lparr>accepted := accepted s @ [data]\<rparr>)"
      by (simp add: flushQueue_accepted flushQueue_keeps_accepted)
    finally show ?thesis
      using queue_inv_send[OF inv, of data] CallSend by simp
  next
    case False
    with st CallSend inv show ?thesis
      by (simp add: socket_send_def queueSend_def)
  qed
next
  case (CallClose code reason)
  with st have "s' = socket_close code reason s" by simp
  with inv CallClose show ?thesis
    by (simp add: queue_inv_same[OF _ queue_same_socket_close])
next
  case (SetBinaryType v)
  with st have "queue_same s s'" by (auto simp: queue_same_def set_binaryType_def)
  with inv SetBinaryType show ?thesis by (simp add: queue_inv_same)
next
  case (ConnectResolved cid negotiated)
  let ?o = "handleOpen negotiated (s\<lparr>connecting := False, connId := cid\<rparr>)"
  have "queue_same s ?o" by (simp add: queue_same_def lifecycle_defs)
  then have "queue_same s (startPolling_loop ?o)"
    using queue_same_startPolling_loop by (rule queue_same_trans)
  with st ConnectResolved have "queue_same s s'" by (auto split: if_splits)
  with inv ConnectResolved show ?thesis by (simp add: queue_inv_same)
next
  case (ConnectRejected err)
  have "queue_same s (s\<lparr>connecting := False\<rparr>)" by (simp add: queue_same_def)
  then have "queue_same s (handleError err (s\<lparr>connecting := False\<rparr>))"
    using queue_same_handleError by (rule queue_same_trans)
  with st ConnectRejected have "queue_same s s'" by (auto split: if_splits)
  with inv ConnectRejected show ?thesis by (simp add: queue_inv_same)
next
  case (BlobResolved j)
  with st have j: "j < length (drains s)" by (simp split: if_splits)
  with inv have one: "j = 0" "drains s = [drains s ! j]" using single_drain by blast+
  from st BlobResolved j obtain bytes sz where
    d: "drains s ! j = AwaitingBlob (BlobData bytes) sz"
    and s': "s' = drain_binary (BlobData bytes) sz bytes (s\<lparr>drains := remove_nth j (drains s)\<rparr>)"
    by (auto split: drain_task.splits payload.splits)
  from one d have "drains s = [AwaitingBlob (BlobData bytes) sz]" by simp
  moreover from this one have "remove_nth j (drains s) = []" by (simp add: remove_nth_def)
  ultimately show ?thesis
    using queue_inv_blob_read[OF inv] s' BlobResolved by simp
next
  case (BlobRejected j err)
  with st have j: "j < length (drains s)" by (simp split: if_splits)
  with inv have one: "j = 0" "drains s = [drains s ! j]" using single_drain by blast+
  from st BlobRejected j obtain p sz where
    d: "drains s ! j = AwaitingBlob p sz"
    and s': "s' = drain_break err (s\<lparr>drains := remove_nth j (drains s)\<rparr>)"
    by (auto split: drain_task.splits)
  from one d have "drains s = [AwaitingBlob p sz]" by simp
  moreover from this one have "remove_nth j (drains s) = []" by (simp add: remove_nth_def)
  ultimately show ?thesis
    using queue_inv_blob_failed[OF inv] s' BlobRejected by simp
next
  case (SendResolved j)
  with st have j: "j < length (drains s)" by (simp split: if_splits)
  with inv have one: "j = 0" "drains s = [drains s ! j]" using single_drain by blast+
  from st SendResolved j obtain p sz where
    d: "drains s ! j = AwaitingAck p sz"
    and s': "s' = drain_acked sz (s\<lparr>drains := remove_nth j (drains s)\<rparr>)"
    by (auto split: drain_task.splits)
  from one d have "drains s = [AwaitingAck p sz]" by simp
  moreover from this one have "remove_nth j (drains s) = []" by (simp add: remove_nth_def)
  ultimately show ?thesis
    using queue_inv_acked[OF inv] s' SendResolved by simp
next
  case (SendRejected j err)
  with st have j: "j < length (drains s)" by (simp split: if_splits)
  with inv have one: "j = 0" "drains s = [drains s ! j]" using single_drain by blast+
  from st SendRejected j obtain p sz where
    d: "drains s ! j = AwaitingAck p sz"
    and s': "s' = drain_break err (s\<lparr>drains := remove_nth j (drains s)\<rparr>)"
    by (auto split: drain_task.splits)
  from one d have "drains s = [AwaitingAck p sz]" by simp
  moreover from this one have "remove_nth j (drains s) = []" by (simp add: remove_nth_def)
  ultimately show ?thesis
    using queue_inv_send_failed[OF inv] s' SendRejected by simp
next
  case (PollResolved ms)
  let ?p = "s\<lparr>polling := polling s - 1\<rparr>"
  have "queue_same s ?p" by (simp add: queue_same_def)
  then have "queue_same s (fold (handleMessage pf) ms ?p)"
    using queue_same_fold by (rule queue_same_trans)
  then have "queue_same s (poll_resolved pf ms ?p)"
    unfolding poll_resolved_def using queue_same_startPolling_loop by (rule queue_same_trans)
  with st PollResolved have "queue_same s s'" by (auto split: if_splits)
  with inv PollResolved show ?thesis by (simp add: queue_inv_same)
next
  case (PollRejected err)
  let ?p = "s\<lparr>polling := polling s - 1\<rparr>"
  have "queue_same s ?p" by (simp add: queue_same_def)
  moreover have "queue_same ?p (poll_rejected err ?p)"
    by (simp add: poll_rejected_def queue_same_handleError queue_same_refl)
  ultimately have "queue_same s (poll_rejected err ?p)" by (rule queue_same_trans)
  with st PollRejected have "queue_same s s'" by (auto split: if_splits)
  with inv PollRejected show ?thesis by (simp add: queue_inv_same)
next
  case (CloseSettled j)
  have "\<And>code reason. queue_same s
      (close_settled code reason (s\<lparr>closers := remove_nth j (closers s)\<rparr>))"
    by (simp add: queue_same_def close_settled_def lifecycle_defs)
  with st CloseSettled have "queue_same s s'" by (auto split: if_splits prod.splits)
  with inv CloseSettled show ?thesis by (simp add: queue_inv_same)
qed

lemma queue_inv_run:
  "run pf ts s = Some s' \<Longrightarrow> queue_inv k s \<Longrightarrow> queue_inv (k + acks ts) s'"
proof (induction ts arbitrary: s k)
  case Nil
  then show ?case by (simp add: acks_def)
next
  case (Cons t ts)
  from Cons.prems(1) obtain s1 where st: "step pf t s = Some s1" and rest: "run pf ts s1 = Some s'"
    by (auto split: option.splits)
  from Cons.prems(2) st have "queue_inv (if is_ack t then Suc k else k) s1"
    by (rule queue_inv_step)
  from Cons.IH[OF rest this] show ?case
    by (cases "is_ack t") (simp_all add: acks_def)
qed

lemma queue_inv_reachable:
  "run pf ts createHttpBridgeWebSocket = Some s \<Longrightarrow> queue_inv (acks ts) s"
  using queue_inv_run[OF _ queue_inv_init] by fastforce

subsection \<open>Requests to the send endpoint when the application never calls close\<close>














subsection \<open>Order of submission and the buffered byte count\<close>


text \<open>
  Claim C9.  In every execution \<^verbatim>\<open>bufferedAmount\<close> is an integer that is not negative,
  and it is the sum of the computed sizes of the accepted payloads that have not been
  acknowledged; so, after any number of accepted sends and no acknowledgment, it is the
  sum of the sizes of all of them (UTF-8 length for a string, byte length for binary
  data).
\<close>

theorem C9_buffered_amount:
  assumes reach: "run pf ts createHttpBridgeWebSocket = Some s"
  shows "0 \<le> bufferedAmount s
    \<and> bufferedAmount s = sum_list (map calculateSize (drop (acks ts) (accepted s)))
    \<and> (acks ts = 0 \<longrightarrow> bufferedAmount s = sum_list (map calculateSize (accepted s)))"
proof -
  have "queue_inv (acks ts) s" using reach by (rule queue_inv_reachable)
  then have b: "bufferedAmount s = sum_list (map calculateSize (drop (acks ts) (accepted s)))"
    by (simp add: queue_inv_def)
  moreover from b have "0 \<le> bufferedAmount s"
    by (simp add: sum_sizes_nonneg)
  moreover from b have "acks ts = 0 \<longrightarrow> bufferedAmount s = sum_list (map calculateSize (accepted s))"
    by simp
  ultimately show ?thesis by blast
qed



lemma run_two_sends_unacked:
  "run pf (butlast two_sends) createHttpBridgeWebSocket =
     Some (open_socket\<lparr>
       isSending := True, bufferedAmount := 5,
       sendQueue := [(StringData [0x68, 0x69], 2), (ArrayBufferData [1, 2, 3], 3)],
       drains := [AwaitingAck (StringData [0x68, 0x69]) 2],
       fetched := [ConnectRequest, PollRequest (Some ''c1''),
                   SendRequest (Some ''c1'') (TextFrame [0x68, 0x69])],
       accepted := [StringData [0x68, 0x69], ArrayBufferData [1, 2, 3]]\<rparr>)"
  by (simp add: two_sends_def open_socket_def createHttpBridgeWebSocket_def
      startPolling_loop_def lifecycle_defs drain_defs)


theorem C9_buffered_amount_witness:
  "(case run example_platform (butlast two_sends) createHttpBridgeWebSocket of
      None \<Rightarrow> False
    | Some s \<Rightarrow>
        acks (butlast two_sends) = 0
        \<and> accepted s = [StringData [0x68, 0x69], ArrayBufferData [1, 2, 3]]
        \<and> 0 \<le> bufferedAmount s
        \<and> bufferedAmount s = sum_list (map calculateSize (accepted s))
        \<and> bufferedAmount s = 5)"
proof -
  obtain s where
    reach: "run example_platform (butlast two_sends) createHttpBridgeWebSocket = Some s"
    and a: "accepted s = [StringData [0x68, 0x69], ArrayBufferData [1, 2, 3]]"
    using run_two_sends_unacked[of example_platform] by simp
  have none_acked: "acks (butlast two_sends) = 0"
    by (simp add: two_sends_def acks_def)
  from C9_buffered_amount [OF reach] none_acked
  have "0 \<le> bufferedAmount s \<and> bufferedAmount s = sum_list (map calculateSize (accepted s))"
    by blast
  with reach a none_acked show ?thesis by simp
qed

end
